theory Spec2Isabelle
  imports Complex_Main "HOL-Library.Sublist"
begin

section \<open>Strings\<close>

text \<open>
  A source string other than the title of a document is modelled as an Isabelle
  \<open>string\<close>: a list of characters, each standing for one code unit below 256.  The
  whitespace class of the source language (\<^verbatim>\<open>\s\<close> in a regular expression, and what
  \<^verbatim>\<open>trim\<close> removes) is, in that range, tab, line feed, vertical tab, form feed, carriage
  return, space and the no-break space.
\<close>

definition is_digit :: "char \<Rightarrow> bool" where
  "is_digit c = (c \<in> set ''0123456789'')"

definition digit_val :: "char \<Rightarrow> nat" where
  "digit_val c = of_char c - (48::nat)"

text \<open>The value of a decimal numeral, most significant digit first.\<close>

definition nat_of_digits :: "string \<Rightarrow> nat" where
  "nat_of_digits ds = foldl (\<lambda>acc c. 10 * acc + digit_val c) 0 ds"

text \<open>The class \<^verbatim>\<open>\s\<close>; the line terminators (where \<^verbatim>\<open>$\<close> matches under the flag
  \<^verbatim>\<open>m\<close>, and which \<^verbatim>\<open>.\<close> does not match); the class \<^verbatim>\<open>\w\<close>.\<close>

definition is_space :: "char \<Rightarrow> bool" where
  "is_space c = (c \<in> set [CHR 0x09, CHR 0x0A, CHR 0x0B, CHR 0x0C, CHR 0x0D, CHR 0x20, CHR 0xA0])"

definition is_line_terminator :: "char \<Rightarrow> bool" where
  "is_line_terminator c = (c \<in> set [CHR 0x0A, CHR 0x0D])"

definition is_word_char :: "char \<Rightarrow> bool" where
  "is_word_char c =
     (c \<in> set ''abcdefghijklmnopqrstuvwxyzABCDEFGHIJKLMNOPQRSTUVWXYZ0123456789_'')"

text \<open>\<^verbatim>\<open>s.trim()\<close>.\<close>

definition trim :: "string \<Rightarrow> string" where
  "trim s = rev (dropWhile is_space (rev (dropWhile is_space s)))"

text \<open>
  \<^verbatim>\<open>s.toLowerCase()\<close> on code units below 256: the letters \<open>A\<close> to \<open>Z\<close> and the
  accented capitals \<open>0xC0\<close> to \<open>0xDE\<close> (but not the multiplication sign \<open>0xD7\<close>) move
  up by 32.
\<close>

definition toLowerCase_char :: "char \<Rightarrow> char" where
  "toLowerCase_char c =
     (let n = (of_char c :: nat) in
      if (65 \<le> n \<and> n \<le> 90) \<or> (192 \<le> n \<and> n \<le> 222 \<and> n \<noteq> 215)
      then char_of (n + 32) else c)"

definition toLowerCase :: "string \<Rightarrow> string" where
  "toLowerCase s = map toLowerCase_char s"

subsection \<open>Operations that take a regular expression\<close>

text \<open>
  A regular expression is modelled by its matcher: given the rest of the input from some
  position, the matcher returns the length of the match that starts at that position,
  or \<open>None\<close>.  All expressions of the source look only forward, so the rest of the
  input is all that a matcher needs, and none of them matches the empty string.

  \<open>replace_all\<close> is \<^verbatim>\<open>s.replace(/re/g, f)\<close>: the input is scanned from the left, each
  match is replaced by \<open>f\<close> of the matched text, and the scan goes on after the match.
  \<open>split_matches\<close> is \<^verbatim>\<open>s.split(/re/)\<close> (and \<^verbatim>\<open>s.split(sep)\<close>): the pieces between
  the matches, empty pieces included; the empty input gives one empty piece.
  \<open>count_matches\<close> is the length of \<^verbatim>\<open>s.match(/re/g) || []\<close>, and \<open>test_match\<close> is
  \<^verbatim>\<open>/re/.test(s)\<close> for an expression that is not anchored.
\<close>

type_synonym matcher = "string \<Rightarrow> nat option"

fun replace_all :: "matcher \<Rightarrow> (string \<Rightarrow> string) \<Rightarrow> string \<Rightarrow> string" where
  "replace_all m f [] = []"
| "replace_all m f (c # cs) =
     (case m (c # cs) of
        Some n \<Rightarrow> f (take n (c # cs)) @ replace_all m f (drop (n - 1) cs)
      | None \<Rightarrow> c # replace_all m f cs)"

fun split_matches :: "matcher \<Rightarrow> string \<Rightarrow> string list" where
  "split_matches m [] = [[]]"
| "split_matches m (c # cs) =
     (case m (c # cs) of
        Some n \<Rightarrow> [] # split_matches m (drop (n - 1) cs)
      | None \<Rightarrow> (case split_matches m cs of
                   p # ps \<Rightarrow> (c # p) # ps
                 | [] \<Rightarrow> [[c]]))"

fun count_matches :: "matcher \<Rightarrow> string \<Rightarrow> nat" where
  "count_matches m [] = 0"
| "count_matches m (c # cs) =
     (case m (c # cs) of
        Some n \<Rightarrow> Suc (count_matches m (drop (n - 1) cs))
      | None \<Rightarrow> count_matches m cs)"

fun test_match :: "matcher \<Rightarrow> string \<Rightarrow> bool" where
  "test_match m [] = (m [] \<noteq> None)"
| "test_match m (c # cs) = (m (c # cs) \<noteq> None \<or> test_match m cs)"


subsection \<open>Regular expressions as matchers\<close>

abbreviation NL :: char where "NL \<equiv> CHR 0x0A"
abbreviation DQUOTE :: char where "DQUOTE \<equiv> CHR 0x22"
abbreviation SQUOTE :: char where "SQUOTE \<equiv> CHR 0x27"

text \<open>
  The building blocks: a literal; a literal under the flag \<^verbatim>\<open>i\<close> (the pattern is in lower
  case; in the range modelled only the two cases of an ASCII letter match it); one
  character of a class; a greedy run \<^verbatim>\<open>c*\<close> and a run of at least \<open>k\<close> characters
  (\<^verbatim>\<open>c+\<close>, \<^verbatim>\<open>c{k,}\<close>); sequencing; and alternatives that are tried in order, each of
  them followed by the rest \<open>k\<close> of the expression, so that a later alternative is
  tried when the rest fails after an earlier one (backtracking).  An optional part
  \<^verbatim>\<open>m?\<close> is the alternative of \<open>m\<close> and the empty match.  \<open>seq\<close> does not backtrack
  into its first part; it is used only where the first part can match in one way, or
  where a shorter run cannot help (the character after a shorter run belongs to the
  class of the run, and the expression that follows does not start with that class).
\<close>

definition lit :: "string \<Rightarrow> matcher" where
  "lit p s = (if prefix p s then Some (length p) else None)"

definition lit_ci :: "string \<Rightarrow> matcher" where
  "lit_ci p s = (if prefix p (toLowerCase (take (length p) s)) then Some (length p) else None)"

definition one_of :: "string \<Rightarrow> matcher" where
  "one_of cls s = (case s of [] \<Rightarrow> None | c # _ \<Rightarrow> if c \<in> set cls then Some 1 else None)"

definition one_if :: "(char \<Rightarrow> bool) \<Rightarrow> matcher" where
  "one_if P s = (case s of [] \<Rightarrow> None | c # _ \<Rightarrow> if P c then Some 1 else None)"

definition star_of :: "(char \<Rightarrow> bool) \<Rightarrow> matcher" where
  "star_of P s = Some (length (takeWhile P s))"

definition run_of :: "nat \<Rightarrow> (char \<Rightarrow> bool) \<Rightarrow> matcher" where
  "run_of k P s = (let n = length (takeWhile P s) in if k \<le> n then Some n else None)"

text \<open>\<^verbatim>\<open>\s+\<close>.\<close>

definition whitespace_run :: matcher where
  "whitespace_run = run_of 1 is_space"

definition seq :: "matcher \<Rightarrow> matcher \<Rightarrow> matcher" where
  "seq m k s = (case m s of None \<Rightarrow> None | Some n \<Rightarrow> map_option (\<lambda>j. n + j) (k (drop n s)))"

fun alts_then :: "matcher list \<Rightarrow> matcher \<Rightarrow> matcher" where
  "alts_then [] k s = None"
| "alts_then (m # ms) k s = (case seq m k s of Some n \<Rightarrow> Some n | None \<Rightarrow> alts_then ms k s)"

definition empty_match :: matcher where
  "empty_match s = Some 0"

definition opt_then :: "matcher \<Rightarrow> matcher \<Rightarrow> matcher" where
  "opt_then m k = alts_then [m, empty_match] k"

definition alt :: "matcher \<Rightarrow> matcher \<Rightarrow> matcher" where
  "alt m1 m2 = alts_then [m1, m2] empty_match"

text \<open>
  \<^verbatim>\<open>[^>]*>\<close>: everything up to the first \<open>>\<close>, which must exist.  \<^verbatim>\<open>\b\<close> after a word
  character: the next character, if any, is not a word character.
\<close>

definition until_gt :: matcher where
  "until_gt s = (if CHR ''>'' \<in> set s
                 then Some (Suc (length (takeWhile (\<lambda>c. c \<noteq> CHR ''>'') s))) else None)"

definition word_end_then :: "matcher \<Rightarrow> matcher" where
  "word_end_then k s = (if s = [] \<or> \<not> is_word_char (hd s) then k s else None)"

text \<open>
  \<^verbatim>\<open>\s*$\<close> under the flag \<^verbatim>\<open>m\<close>: the run takes a whitespace character and goes on; when
  that fails it stops before that character, where \<^verbatim>\<open>$\<close> holds if the character is a
  line terminator; at the end of the input \<^verbatim>\<open>$\<close> holds.
\<close>

fun spaces_to_eol :: matcher where
  "spaces_to_eol [] = Some 0"
| "spaces_to_eol (c # cs) =
     (if is_space c
      then (case spaces_to_eol cs of
              Some n \<Rightarrow> Some (Suc n)
            | None \<Rightarrow> if is_line_terminator c then Some 0 else None)
      else if is_line_terminator c then Some 0 else None)"

subsection \<open>Strings of UTF-16 code units\<close>

text \<open>
  The title of a document is modelled as the string of UTF-16 code units that it is in the
  source, since the extension of a document depends on characters beyond code unit 255:
  the lower case of the Kelvin sign \<open>0x212A\<close> is the letter \<open>k\<close>.  A code unit is a number
  below \<open>65536\<close>; \<open>units\<close> turns a string of characters below 256 into code units.
\<close>

type_synonym code_unit = nat

definition units :: "string \<Rightarrow> code_unit list" where
  "units s = map of_char s"

text \<open>
  \<^verbatim>\<open>s.trim()\<close> removes, at both ends, the white space and the line terminators of the
  language.
\<close>

definition WhiteSpace :: "code_unit list" where
  "WhiteSpace = [0x0009, 0x000B, 0x000C, 0x0020, 0x00A0, 0x1680, 0x2000, 0x2001, 0x2002,
     0x2003, 0x2004, 0x2005, 0x2006, 0x2007, 0x2008, 0x2009, 0x200A, 0x202F, 0x205F, 0x3000,
     0xFEFF]"

definition LineTerminator :: "code_unit list" where
  "LineTerminator = [0x000A, 0x000D, 0x2028, 0x2029]"

definition is_white_space :: "code_unit \<Rightarrow> bool" where
  "is_white_space c = (c \<in> set (WhiteSpace @ LineTerminator))"

definition trim16 :: "code_unit list \<Rightarrow> code_unit list" where
  "trim16 s = rev (dropWhile is_white_space (rev (dropWhile is_white_space s)))"

text \<open>
  \<^verbatim>\<open>s.toLowerCase()\<close> replaces every character by its lower case in Unicode.  For the
  characters of one code unit the table below gives the characters that change (Unicode
  14): an entry \<open>(lo, hi, step, target)\<close> maps \<open>lo\<close> to \<open>target\<close>,
  \<open>lo + step\<close> to \<open>target + step\<close>, and so on up to \<open>hi\<close>.  The letters \<open>A\<close> to \<open>Z\<close>
  and the Kelvin sign are the only characters whose lower case is an ASCII character.
  The capital I with a dot above, \<open>0x0130\<close>, is the one character that becomes two code
  units, the letter \<open>i\<close> and the combining dot \<open>0x0307\<close>.  Two things are left out, and
  neither produces or removes a code unit below 128: a surrogate pair is left as it is
  (the lower case of a character beyond \<open>0xFFFF\<close> is again a surrogate pair), and the capital
  sigma \<open>0x03A3\<close> always becomes \<open>0x03C3\<close> (at the end of a word the source gives the final
  sigma \<open>0x03C2\<close>).
\<close>

definition other_lower_ranges :: "(code_unit \<times> code_unit \<times> nat \<times> code_unit) list" where
  "other_lower_ranges =
    [(0x00C0, 0x00D6, 1, 0x00E0), (0x00D8, 0x00DE, 1, 0x00F8), (0x0100, 0x012E, 2, 0x0101),
     (0x0132, 0x0136, 2, 0x0133), (0x0139, 0x0147, 2, 0x013A), (0x014A, 0x0176, 2, 0x014B),
     (0x0178, 0x0178, 1, 0x00FF), (0x0179, 0x017D, 2, 0x017A), (0x0181, 0x0181, 1, 0x0253),
     (0x0182, 0x0184, 2, 0x0183), (0x0186, 0x0186, 1, 0x0254), (0x0187, 0x0187, 1, 0x0188),
     (0x0189, 0x018A, 1, 0x0256), (0x018B, 0x018B, 1, 0x018C), (0x018E, 0x018E, 1, 0x01DD),
     (0x018F, 0x018F, 1, 0x0259), (0x0190, 0x0190, 1, 0x025B), (0x0191, 0x0191, 1, 0x0192),
     (0x0193, 0x0193, 1, 0x0260), (0x0194, 0x0194, 1, 0x0263), (0x0196, 0x0196, 1, 0x0269),
     (0x0197, 0x0197, 1, 0x0268), (0x0198, 0x0198, 1, 0x0199), (0x019C, 0x019C, 1, 0x026F),
     (0x019D, 0x019D, 1, 0x0272), (0x019F, 0x019F, 1, 0x0275), (0x01A0, 0x01A4, 2, 0x01A1),
     (0x01A6, 0x01A6, 1, 0x0280), (0x01A7, 0x01A7, 1, 0x01A8), (0x01A9, 0x01A9, 1, 0x0283),
     (0x01AC, 0x01AC, 1, 0x01AD), (0x01AE, 0x01AE, 1, 0x0288), (0x01AF, 0x01AF, 1, 0x01B0),
     (0x01B1, 0x01B2, 1, 0x028A), (0x01B3, 0x01B5, 2, 0x01B4), (0x01B7, 0x01B7, 1, 0x0292),
     (0x01B8, 0x01B8, 1, 0x01B9), (0x01BC, 0x01BC, 1, 0x01BD), (0x01C4, 0x01C4, 1, 0x01C6),
     (0x01C5, 0x01C5, 1, 0x01C6), (0x01C7, 0x01C7, 1, 0x01C9), (0x01C8, 0x01C8, 1, 0x01C9),
     (0x01CA, 0x01CA, 1, 0x01CC), (0x01CB, 0x01DB, 2, 0x01CC), (0x01DE, 0x01EE, 2, 0x01DF),
     (0x01F1, 0x01F1, 1, 0x01F3), (0x01F2, 0x01F4, 2, 0x01F3), (0x01F6, 0x01F6, 1, 0x0195),
     (0x01F7, 0x01F7, 1, 0x01BF), (0x01F8, 0x021E, 2, 0x01F9), (0x0220, 0x0220, 1, 0x019E),
     (0x0222, 0x0232, 2, 0x0223), (0x023A, 0x023A, 1, 0x2C65), (0x023B, 0x023B, 1, 0x023C),
     (0x023D, 0x023D, 1, 0x019A), (0x023E, 0x023E, 1, 0x2C66), (0x0241, 0x0241, 1, 0x0242),
     (0x0243, 0x0243, 1, 0x0180), (0x0244, 0x0244, 1, 0x0289), (0x0245, 0x0245, 1, 0x028C),
     (0x0246, 0x024E, 2, 0x0247), (0x0370, 0x0372, 2, 0x0371), (0x0376, 0x0376, 1, 0x0377),
     (0x037F, 0x037F, 1, 0x03F3), (0x0386, 0x0386, 1, 0x03AC), (0x0388, 0x038A, 1, 0x03AD),
     (0x038C, 0x038C, 1, 0x03CC), (0x038E, 0x038F, 1, 0x03CD), (0x0391, 0x03A1, 1, 0x03B1),
     (0x03A3, 0x03AB, 1, 0x03C3), (0x03CF, 0x03CF, 1, 0x03D7), (0x03D8, 0x03EE, 2, 0x03D9),
     (0x03F4, 0x03F4, 1, 0x03B8), (0x03F7, 0x03F7, 1, 0x03F8), (0x03F9, 0x03F9, 1, 0x03F2),
     (0x03FA, 0x03FA, 1, 0x03FB), (0x03FD, 0x03FF, 1, 0x037B), (0x0400, 0x040F, 1, 0x0450),
     (0x0410, 0x042F, 1, 0x0430), (0x0460, 0x0480, 2, 0x0461), (0x048A, 0x04BE, 2, 0x048B),
     (0x04C0, 0x04C0, 1, 0x04CF), (0x04C1, 0x04CD, 2, 0x04C2), (0x04D0, 0x052E, 2, 0x04D1),
     (0x0531, 0x0556, 1, 0x0561), (0x10A0, 0x10C5, 1, 0x2D00), (0x10C7, 0x10C7, 1, 0x2D27),
     (0x10CD, 0x10CD, 1, 0x2D2D), (0x13A0, 0x13EF, 1, 0xAB70), (0x13F0, 0x13F5, 1, 0x13F8),
     (0x1C90, 0x1CBA, 1, 0x10D0), (0x1CBD, 0x1CBF, 1, 0x10FD), (0x1E00, 0x1E94, 2, 0x1E01),
     (0x1E9E, 0x1E9E, 1, 0x00DF), (0x1EA0, 0x1EFE, 2, 0x1EA1), (0x1F08, 0x1F0F, 1, 0x1F00),
     (0x1F18, 0x1F1D, 1, 0x1F10), (0x1F28, 0x1F2F, 1, 0x1F20), (0x1F38, 0x1F3F, 1, 0x1F30),
     (0x1F48, 0x1F4D, 1, 0x1F40), (0x1F59, 0x1F5F, 2, 0x1F51), (0x1F68, 0x1F6F, 1, 0x1F60),
     (0x1F88, 0x1F8F, 1, 0x1F80), (0x1F98, 0x1F9F, 1, 0x1F90), (0x1FA8, 0x1FAF, 1, 0x1FA0),
     (0x1FB8, 0x1FB9, 1, 0x1FB0), (0x1FBA, 0x1FBB, 1, 0x1F70), (0x1FBC, 0x1FBC, 1, 0x1FB3),
     (0x1FC8, 0x1FCB, 1, 0x1F72), (0x1FCC, 0x1FCC, 1, 0x1FC3), (0x1FD8, 0x1FD9, 1, 0x1FD0),
     (0x1FDA, 0x1FDB, 1, 0x1F76), (0x1FE8, 0x1FE9, 1, 0x1FE0), (0x1FEA, 0x1FEB, 1, 0x1F7A),
     (0x1FEC, 0x1FEC, 1, 0x1FE5), (0x1FF8, 0x1FF9, 1, 0x1F78), (0x1FFA, 0x1FFB, 1, 0x1F7C),
     (0x1FFC, 0x1FFC, 1, 0x1FF3), (0x2126, 0x2126, 1, 0x03C9), (0x212B, 0x212B, 1, 0x00E5),
     (0x2132, 0x2132, 1, 0x214E), (0x2160, 0x216F, 1, 0x2170), (0x2183, 0x2183, 1, 0x2184),
     (0x24B6, 0x24CF, 1, 0x24D0), (0x2C00, 0x2C2F, 1, 0x2C30), (0x2C60, 0x2C60, 1, 0x2C61),
     (0x2C62, 0x2C62, 1, 0x026B), (0x2C63, 0x2C63, 1, 0x1D7D), (0x2C64, 0x2C64, 1, 0x027D),
     (0x2C67, 0x2C6B, 2, 0x2C68), (0x2C6D, 0x2C6D, 1, 0x0251), (0x2C6E, 0x2C6E, 1, 0x0271),
     (0x2C6F, 0x2C6F, 1, 0x0250), (0x2C70, 0x2C70, 1, 0x0252), (0x2C72, 0x2C72, 1, 0x2C73),
     (0x2C75, 0x2C75, 1, 0x2C76), (0x2C7E, 0x2C7F, 1, 0x023F), (0x2C80, 0x2CE2, 2, 0x2C81),
     (0x2CEB, 0x2CED, 2, 0x2CEC), (0x2CF2, 0x2CF2, 1, 0x2CF3), (0xA640, 0xA66C, 2, 0xA641),
     (0xA680, 0xA69A, 2, 0xA681), (0xA722, 0xA72E, 2, 0xA723), (0xA732, 0xA76E, 2, 0xA733),
     (0xA779, 0xA77B, 2, 0xA77A), (0xA77D, 0xA77D, 1, 0x1D79), (0xA77E, 0xA786, 2, 0xA77F),
     (0xA78B, 0xA78B, 1, 0xA78C), (0xA78D, 0xA78D, 1, 0x0265), (0xA790, 0xA792, 2, 0xA791),
     (0xA796, 0xA7A8, 2, 0xA797), (0xA7AA, 0xA7AA, 1, 0x0266), (0xA7AB, 0xA7AB, 1, 0x025C),
     (0xA7AC, 0xA7AC, 1, 0x0261), (0xA7AD, 0xA7AD, 1, 0x026C), (0xA7AE, 0xA7AE, 1, 0x026A),
     (0xA7B0, 0xA7B0, 1, 0x029E), (0xA7B1, 0xA7B1, 1, 0x0287), (0xA7B2, 0xA7B2, 1, 0x029D),
     (0xA7B3, 0xA7B3, 1, 0xAB53), (0xA7B4, 0xA7C2, 2, 0xA7B5), (0xA7C4, 0xA7C4, 1, 0xA794),
     (0xA7C5, 0xA7C5, 1, 0x0282), (0xA7C6, 0xA7C6, 1, 0x1D8E), (0xA7C7, 0xA7C9, 2, 0xA7C8),
     (0xA7D0, 0xA7D0, 1, 0xA7D1), (0xA7D6, 0xA7D8, 2, 0xA7D7), (0xA7F5, 0xA7F5, 1, 0xA7F6),
     (0xFF21, 0xFF3A, 1, 0xFF41)]"

definition lower_ranges :: "(code_unit \<times> code_unit \<times> nat \<times> code_unit) list" where
  "lower_ranges = (0x0041, 0x005A, 1, 0x0061) # (0x212A, 0x212A, 1, 0x006B) # other_lower_ranges"

fun lookup_lower ::
  "(code_unit \<times> code_unit \<times> nat \<times> code_unit) list \<Rightarrow> code_unit \<Rightarrow> code_unit option" where
  "lookup_lower [] c = None"
| "lookup_lower ((lo, hi, step, target) # rs) c =
     (if lo \<le> c \<and> c \<le> hi \<and> (c - lo) mod step = 0 then Some (target + (c - lo))
      else lookup_lower rs c)"

definition toLowerCase_unit :: "code_unit \<Rightarrow> code_unit list" where
  "toLowerCase_unit c =
     (if c = 0x0130 then [0x0069, 0x0307]
      else (case lookup_lower lower_ranges c of Some l \<Rightarrow> [l] | None \<Rightarrow> [c]))"

definition toLowerCase16 :: "code_unit list \<Rightarrow> code_unit list" where
  "toLowerCase16 s = concat (map toLowerCase_unit s)"

text \<open>
  \<^verbatim>\<open>s.includes(sub)\<close>, and \<^verbatim>\<open>s.split(sep)\<close> for a separator that is not empty: the pieces
  between the occurrences of the separator, found from the left, empty pieces included.
\<close>

fun includes16 :: "code_unit list \<Rightarrow> code_unit list \<Rightarrow> bool" where
  "includes16 [] sub = (sub = [])"
| "includes16 (c # cs) sub = (prefix sub (c # cs) \<or> includes16 cs sub)"

fun split16 :: "code_unit list \<Rightarrow> code_unit list \<Rightarrow> code_unit list list" where
  "split16 sep [] = [[]]"
| "split16 sep (c # cs) =
     (if sep \<noteq> [] \<and> prefix sep (c # cs) then [] # split16 sep (drop (length sep - 1) cs)
      else (case split16 sep cs of
              p # ps \<Rightarrow> (c # p) # ps
            | [] \<Rightarrow> [[c]]))"

text \<open>
  \<^verbatim>\<open>/^[a-z0-9]+$/i.test(s)\<close>.  Under the flag \<^verbatim>\<open>i\<close> the class holds the digits and the ASCII
  letters of both cases, and no other code unit.  The run of the class is greedy, has one
  character at least, and must end where the string ends.
\<close>

definition is_alnum :: "code_unit \<Rightarrow> bool" where
  "is_alnum c = ((48 \<le> c \<and> c \<le> 57) \<or> (65 \<le> c \<and> c \<le> 90) \<or> (97 \<le> c \<and> c \<le> 122))"

definition test_alnum :: "code_unit list \<Rightarrow> bool" where
  "test_alnum s = (let n = length (takeWhile is_alnum s) in 1 \<le> n \<and> n = length s)"

section \<open>The content converter\<close>

text \<open>
  The expressions of \<^verbatim>\<open>htmlToPlainText\<close>:
  \<^verbatim>\<open>/<\/?(?:p|div|h[1-6]|li|tr|blockquote|br)\b[^>]*>/gi\<close>,
  \<^verbatim>\<open>/<br\s*\/?>/gi\<close>, \<^verbatim>\<open>/<[^>]*>/g\<close> and \<^verbatim>\<open>/\s+$/gm\<close>.
\<close>

definition block_tag :: matcher where
  "block_tag =
     seq (lit ''<'')
       (opt_then (lit ''/'')
          (alts_then
             [lit_ci ''p'', lit_ci ''div'', seq (lit_ci ''h'') (one_of ''123456''),
              lit_ci ''li'', lit_ci ''tr'', lit_ci ''blockquote'', lit_ci ''br'']
             (word_end_then until_gt)))"

definition br_tag :: matcher where
  "br_tag = seq (lit_ci ''<br'') (seq (star_of is_space) (opt_then (lit ''/'') (lit ''>'')))"

definition any_tag :: matcher where
  "any_tag = seq (lit ''<'') until_gt"

definition space_eol :: matcher where
  "space_eol = seq (one_if is_space) spaces_to_eol"

definition htmlEscape :: "(string \<times> string) list" where
  "htmlEscape = [(''&'', ''&amp;''), (''<'', ''&lt;''), (''>'', ''&gt;''),
                 ([DQUOTE], ''&quot;''), ([SQUOTE], ''&#39;'')]"

definition htmlToPlainText :: "string \<Rightarrow> string" where
  "htmlToPlainText html =
     (if trim html = [] then []
      else
        let withNewlines =
              replace_all br_tag (\<lambda>_. [NL]) (replace_all block_tag (\<lambda>_. [NL]) html);
            text =
              replace_all (lit ''&nbsp;'') (\<lambda>_. '' '')
                (replace_all any_tag (\<lambda>_. []) withNewlines);
            decoded =
              replace_all (alt (lit ''&#39;'') (lit ''&apos;'')) (\<lambda>_. [SQUOTE])
                (replace_all (lit ''&quot;'') (\<lambda>_. [DQUOTE])
                  (replace_all (lit ''&gt;'') (\<lambda>_. ''>'')
                    (replace_all (lit ''&lt;'') (\<lambda>_. ''<'')
                      (replace_all (lit ''&amp;'') (\<lambda>_. ''&'') text))))
        in trim (replace_all space_eol (\<lambda>_. [])
                  (replace_all (run_of 3 (\<lambda>c. c = NL)) (\<lambda>_. [NL, NL]) decoded)))"

definition plainTextToHtml :: "string \<Rightarrow> string" where
  "plainTextToHtml text =
     (if text = [] then ''<p></p>''
      else
        let escaped =
              replace_all (one_of [CHR ''&'', CHR ''<'', CHR ''>'', DQUOTE, SQUOTE])
                (\<lambda>ch. case map_of htmlEscape ch of Some e \<Rightarrow> e | None \<Rightarrow> ch) text;
            paragraphs = split_matches (run_of 2 (\<lambda>c. c = NL)) escaped
        in concat (map (\<lambda>p. let withBreaks = replace_all (lit [NL]) (\<lambda>_. ''<br>'') p
                             in ''<p>'' @ (if withBreaks = [] then ''<br>'' else withBreaks)
                                  @ ''</p>'')
                     paragraphs))"

section \<open>The document store\<close>

subsection \<open>Documents and objects\<close>

text \<open>
  \<^verbatim>\<open>parentId: string | null\<close>: a value that may be \<^verbatim>\<open>null\<close>.
\<close>

datatype 'a nullable = Null | Val 'a

text \<open>
  The interface \<^verbatim>\<open>Document\<close>.  A field holds \<open>None\<close> when the object has no such
  property (reading it gives \<^verbatim>\<open>undefined\<close>).  The same record therefore models
  \<^verbatim>\<open>Partial<Document>\<close>, and the objects that the store builds by spreading, which may
  lack properties that the interface declares.  The field \<^verbatim>\<open>id\<close> is named \<open>doc_id\<close>,
  and \<^verbatim>\<open>wordCount\<close> is named \<open>doc_wordCount\<close> (the store state has a field of the
  same name).
\<close>

record document =
  doc_id :: "string option"
  title :: "code_unit list option"
  content :: "string option"
  parentId :: "string nullable option"
  isFolder :: "bool option"
  children :: "string list option"
  createdAt :: "int option"
  updatedAt :: "int option"
  doc_wordCount :: "int option"

text \<open>The object without properties: what spreading \<^verbatim>\<open>undefined\<close> contributes.\<close>

definition empty_object :: document where
  "empty_object = \<lparr> doc_id = None, title = None, content = None, parentId = None,
     isFolder = None, children = None, createdAt = None, updatedAt = None,
     doc_wordCount = None \<rparr>"

definition or_else :: "'a option \<Rightarrow> 'a option \<Rightarrow> 'a option" where
  "or_else later earlier = (case later of None \<Rightarrow> earlier | Some v \<Rightarrow> Some v)"

text \<open>
  \<^verbatim>\<open>{ ...a, ...u }\<close>: every property of \<open>u\<close> overrides the property of \<open>a\<close> of the same
  name.  (A property of \<open>u\<close> that is present with the value \<^verbatim>\<open>undefined\<close> is not
  modelled: no caller in the repository passes one.)
\<close>

definition spread :: "document \<Rightarrow> document \<Rightarrow> document" where
  "spread a u = \<lparr>
     doc_id = or_else (doc_id u) (doc_id a),
     title = or_else (title u) (title a),
     content = or_else (content u) (content a),
     parentId = or_else (parentId u) (parentId a),
     isFolder = or_else (isFolder u) (isFolder a),
     children = or_else (children u) (children a),
     createdAt = or_else (createdAt u) (createdAt a),
     updatedAt = or_else (updatedAt u) (updatedAt a),
     doc_wordCount = or_else (doc_wordCount u) (doc_wordCount a) \<rparr>"

subsection \<open>The table: an object keyed by document id\<close>

text \<open>
  \<^verbatim>\<open>documents: Record<string, Document>\<close> is an object used as a dictionary.  The code
  enumerates it (\<^verbatim>\<open>Object.values\<close>, \<^verbatim>\<open>Object.keys\<close>), so the model is an association
  list in the object's property order: keys that are array indices first, in ascending
  numeric order, then all other keys in the order of their creation.
\<close>

type_synonym table = "(string \<times> document) list"

text \<open>
  A key is an array index when it is the canonical decimal numeral of a number below
  \<open>2^32 - 1\<close>.
\<close>

definition array_index :: "string \<Rightarrow> nat option" where
  "array_index k =
     (if k \<noteq> [] \<and> list_all is_digit k \<and> (k = ''0'' \<or> hd k \<noteq> CHR ''0'')
         \<and> nat_of_digits k < 2 ^ 32 - 1
      then Some (nat_of_digits k) else None)"

fun insert_index :: "nat \<Rightarrow> string \<Rightarrow> document \<Rightarrow> table \<Rightarrow> table" where
  "insert_index n k v [] = [(k, v)]"
| "insert_index n k v ((k', v') # rest) =
     (case array_index k' of
        Some m \<Rightarrow> if m < n then (k', v') # insert_index n k v rest
                  else (k, v) # (k', v') # rest
      | None \<Rightarrow> (k, v) # (k', v') # rest)"

text \<open>
  \<^verbatim>\<open>{ ...docs, [k]: v }\<close>: an existing property keeps its place and takes the new value;
  a new property is created at the place its key has in the property order.
\<close>

definition obj_set :: "table \<Rightarrow> string \<Rightarrow> document \<Rightarrow> table" where
  "obj_set docs k v =
     (if k \<in> fst ` set docs
      then map (\<lambda>(k', v'). if k' = k then (k', v) else (k', v')) docs
      else (case array_index k of
              Some n \<Rightarrow> insert_index n k v docs
            | None \<Rightarrow> docs @ [(k, v)]))"

text \<open>\<^verbatim>\<open>delete docs[k]\<close>.\<close>

definition obj_delete :: "table \<Rightarrow> string \<Rightarrow> table" where
  "obj_delete docs k = filter (\<lambda>(k', v'). k' \<noteq> k) docs"

definition Object_values :: "table \<Rightarrow> document list" where
  "Object_values docs = map snd docs"

definition Object_keys :: "table \<Rightarrow> string list" where
  "Object_keys docs = map fst docs"

text \<open>\<^verbatim>\<open>docs[k]\<close> inside a spread: the stored object, or nothing to spread.\<close>

definition obj_get :: "table \<Rightarrow> string \<Rightarrow> document" where
  "obj_get docs k = (case map_of docs k of None \<Rightarrow> empty_object | Some d \<Rightarrow> d)"

subsection \<open>The store state and its actions\<close>

datatype sidebarTab = TabAi | TabOutline

record editorState =
  documents :: table
  activeDocumentId :: "string option"
  isZenMode :: bool
  isLeftSidebarOpen :: bool
  isRightSidebarOpen :: bool
  rightSidebarTab :: sidebarTab
  wordCount :: nat
  charCount :: nat
  readingTime :: nat
  contentHealthScore :: nat

text \<open>
  \<^verbatim>\<open>updateDocument(id, updates)\<close>; \<open>now\<close> is the value of \<^verbatim>\<open>Date.now()\<close>.  Nothing in
  the function can throw, so it returns the new state.
\<close>

definition updateDocument :: "int \<Rightarrow> editorState \<Rightarrow> string \<Rightarrow> document \<Rightarrow> editorState" where
  "updateDocument now state i updates =
     state \<lparr> documents :=
       obj_set (documents state) i
         ((spread (obj_get (documents state) i) updates) \<lparr> updatedAt := Some now \<rparr>) \<rparr>"

text \<open>
  \<^verbatim>\<open>createDocument(parentId, isFolder)\<close>; \<open>i\<close> is the id that \<^verbatim>\<open>generateId()\<close> returns
  and \<open>now\<close> the value of \<^verbatim>\<open>Date.now()\<close>.  The action returns the id with the new state.
\<close>

definition new_document :: "string \<Rightarrow> int \<Rightarrow> string nullable \<Rightarrow> bool \<Rightarrow> document" where
  "new_document i now p f = \<lparr> doc_id = Some i,
     title = Some (units (if f then ''New Folder'' else ''Untitled'')),
     content = Some (if f then [] else ''<p></p>''), parentId = Some p, isFolder = Some f,
     children = None, createdAt = Some now, updatedAt = Some now, doc_wordCount = None \<rparr>"

definition createDocument ::
  "string \<Rightarrow> int \<Rightarrow> editorState \<Rightarrow> string nullable \<Rightarrow> bool \<Rightarrow> string \<times> editorState" where
  "createDocument i now state p f =
     (i, state \<lparr> documents := obj_set (documents state) i (new_document i now p f),
                   activeDocumentId := (if f then activeDocumentId state else Some i) \<rparr>)"

text \<open>\<^verbatim>\<open>renameDocument(id, title)\<close>.\<close>

definition renameDocument ::
  "int \<Rightarrow> editorState \<Rightarrow> string \<Rightarrow> code_unit list \<Rightarrow> editorState" where
  "renameDocument now state i t =
     state \<lparr> documents :=
       obj_set (documents state) i
         ((obj_get (documents state) i) \<lparr> title := Some t, updatedAt := Some now \<rparr>) \<rparr>"

definition setActiveDocument :: "editorState \<Rightarrow> string \<Rightarrow> editorState" where
  "setActiveDocument state i = state \<lparr> activeDocumentId := Some i \<rparr>"

text \<open>
  \<^verbatim>\<open>deleteRecursive(docId)\<close> works on the shared object \<^verbatim>\<open>docs\<close>, which the model
  passes through.  \<^verbatim>\<open>Object.values(docs)\<close> is taken once, when the call starts; the
  recursive calls made from the loop delete from \<^verbatim>\<open>docs\<close> while the loop goes on over
  that snapshot.  The recursion need not end (a document that is its own parent), so
  the model counts the depth of the calls: \<open>None\<close> when the depth \<open>fuel\<close> is
  exhausted, which is the stack overflow of the source.  The argument is
  an optional string, since \<^verbatim>\<open>d.id\<close> is \<^verbatim>\<open>undefined\<close> for a stored object without that
  property; \<^verbatim>\<open>d.parentId === undefined\<close> then holds for the objects without a
  \<^verbatim>\<open>parentId\<close>, and the key deleted is the string \<^verbatim>\<open>"undefined"\<close>.
\<close>

fun forEach :: "('a \<Rightarrow> 's \<Rightarrow> 's option) \<Rightarrow> 'a list \<Rightarrow> 's \<Rightarrow> 's option" where
  "forEach f [] s = Some s"
| "forEach f (x # xs) s = (case f x s of None \<Rightarrow> None | Some s' \<Rightarrow> forEach f xs s')"

definition property_key :: "string option \<Rightarrow> string" where
  "property_key docId = (case docId of None \<Rightarrow> ''undefined'' | Some k \<Rightarrow> k)"

primrec deleteRecursive :: "nat \<Rightarrow> string option \<Rightarrow> table \<Rightarrow> table option" where
  "deleteRecursive 0 docId docs = None"
| "deleteRecursive (Suc fuel) docId docs =
     (case forEach
             (\<lambda>d docs'. if parentId d = map_option Val docId
                         then deleteRecursive fuel (doc_id d) docs' else Some docs')
             (Object_values docs) docs of
        None \<Rightarrow> None
      | Some docs' \<Rightarrow> Some (obj_delete docs' (property_key docId)))"

text \<open>
  \<^verbatim>\<open>deleteDocument(id)\<close>.  \<^verbatim>\<open>remainingIds[0] || null\<close> is \<^verbatim>\<open>null\<close> when no key remains, and
  also when the first remaining key is the empty string.
\<close>

definition first_or_null :: "string list \<Rightarrow> string option" where
  "first_or_null ks = (case ks of [] \<Rightarrow> None | k # _ \<Rightarrow> if k = [] then None else Some k)"

definition deleteDocument :: "nat \<Rightarrow> editorState \<Rightarrow> string \<Rightarrow> editorState option" where
  "deleteDocument fuel state i =
     (case deleteRecursive fuel (Some i) (documents state) of
        None \<Rightarrow> None
      | Some docs \<Rightarrow>
          Some (state \<lparr> documents := docs,
                        activeDocumentId :=
                          (if activeDocumentId state = Some i
                           then first_or_null (Object_keys docs)
                           else activeDocumentId state) \<rparr>))"

subsection \<open>The parent relation\<close>


definition wf_table :: "table \<Rightarrow> bool" where
  "wf_table docs =
     (distinct (map fst docs)
      \<and> (\<forall>(k, d) \<in> set docs. \<forall>p. parentId d = Some (Val p) \<longrightarrow> doc_id d = Some k))"




subsection \<open>Example states\<close>

text \<open>The initial values of the store, with an empty table.\<close>

definition state0 :: editorState where
  "state0 = \<lparr> documents = [], activeDocumentId = None, isZenMode = False,
     isLeftSidebarOpen = True, isRightSidebarOpen = False, rightSidebarTab = TabAi,
     wordCount = 0, charCount = 0, readingTime = 1, contentHealthScore = 75 \<rparr>"

text \<open>
  A folder \<open>f\<close> that holds a folder \<open>g\<close> that holds a document \<open>d\<close>, and a document
  \<open>e\<close> at the root; \<open>d\<close> is the active document.
\<close>

definition tree_table :: table where
  "tree_table =
     [(''f'', new_document ''f'' 0 Null True),
      (''g'', new_document ''g'' 0 (Val ''f'') True),
      (''d'', new_document ''d'' 0 (Val ''g'') False),
      (''e'', new_document ''e'' 0 Null False)]"

definition state1 :: editorState where
  "state1 = state0 \<lparr> documents := tree_table, activeDocumentId := Some ''d'' \<rparr>"


subsection \<open>Escaped markup\<close>

text \<open>
  The strings built from characters other than \<open>&\<close>, \<open><\<close>, \<open>>\<close> and the two quotes,
  from the five entities, and from the markers \<open><p>\<close>, \<open></p>\<close> and \<open><br>\<close>.
\<close>

inductive escaped_markup :: "string \<Rightarrow> bool" where
  em_Nil: "escaped_markup []"
| em_char: "c \<notin> set [CHR ''&'', CHR ''<'', CHR ''>'', DQUOTE, SQUOTE] \<Longrightarrow> escaped_markup s
     \<Longrightarrow> escaped_markup (c # s)"
| em_entity: "e \<in> set [''&amp;'', ''&lt;'', ''&gt;'', ''&quot;'', ''&#39;''] \<Longrightarrow> escaped_markup s
     \<Longrightarrow> escaped_markup (e @ s)"
| em_marker: "m \<in> set [''<p>'', ''</p>'', ''<br>''] \<Longrightarrow> escaped_markup s
     \<Longrightarrow> escaped_markup (m @ s)"

text \<open>
  What one character of a paragraph becomes in the output: a line break becomes the
  marker \<open><br>\<close>, each of the five special characters its entity, any other character
  itself.  \<open>escape_char\<close> is the escaping step alone: the callback of the first
  \<^verbatim>\<open>replace\<close> of \<^verbatim>\<open>plainTextToHtml\<close> on one character.
\<close>

definition render_char :: "char \<Rightarrow> string" where
  "render_char c =
     (if c = NL then ''<br>''
      else if c = CHR ''&'' then ''&amp;''
      else if c = CHR ''<'' then ''&lt;''
      else if c = CHR ''>'' then ''&gt;''
      else if c = DQUOTE then ''&quot;''
      else if c = SQUOTE then ''&#39;''
      else [c])"

definition escape_char :: "char \<Rightarrow> string" where
  "escape_char c =
     (if c \<in> set [CHR ''&'', CHR ''<'', CHR ''>'', DQUOTE, SQUOTE]
      then (case map_of htmlEscape [c] of Some e \<Rightarrow> e | None \<Rightarrow> [c]) else [c])"

subsection \<open>Texts that survive the round trip\<close>

text \<open>
  \<open>spaced s\<close>: no whitespace character of \<open>s\<close> stands directly before a line
  terminator.  \<open>breaks t\<close>: \<open>t\<close> with every line break replaced by \<open><br>\<close>.
\<close>

fun spaced :: "string \<Rightarrow> bool" where
  "spaced [] = True"
| "spaced [c] = True"
| "spaced (c # d # r) = ((is_space c \<longrightarrow> \<not> is_line_terminator d) \<and> spaced (d # r))"

definition breaks :: "string \<Rightarrow> string" where
  "breaks t = concat (map (\<lambda>c. if c = NL then ''<br>'' else [c]) t)"

section \<open>Statistics and the extension of a document\<close>

text \<open>
  \<^verbatim>\<open>xs.pop()\<close> (its value; \<^verbatim>\<open>undefined\<close> on an empty array) and \<^verbatim>\<open>s.includes(sub)\<close>.
\<close>

definition pop :: "'a list \<Rightarrow> 'a option" where
  "pop xs = (if xs = [] then None else Some (last xs))"


text \<open>
  \<^verbatim>\<open>getDocumentExtension(doc)\<close>; \<open>None\<close> is \<^verbatim>\<open>null\<close>.  A document without a title has the
  title \<^verbatim>\<open>""\<close>.  The extension is put in lower case before it is tested.
\<close>

definition getDocumentExtension :: "document \<Rightarrow> code_unit list option" where
  "getDocumentExtension doc =
     (let t = (case title doc of None \<Rightarrow> [] | Some x \<Rightarrow> trim16 x)
      in if \<not> includes16 t (units ''.'') then None
         else (case map_option toLowerCase16 (pop (split16 (units ''.'') t)) of
                 None \<Rightarrow> None
               | Some ext \<Rightarrow> if ext \<noteq> [] \<and> test_alnum ext then Some ext else None))"

text \<open>
  \<^verbatim>\<open>calcReadingTime\<close> and \<^verbatim>\<open>calcContentHealth\<close>.  The divisions are those of the real
  numbers: the quotient of two counts as small as the length of a string is compared
  with \<open>25\<close>, and rounded up, to the same result in floating point.  The variable
  \<^verbatim>\<open>score\<close> is assigned six times; the model names its successive values.
\<close>

definition calcReadingTime :: "nat \<Rightarrow> nat" where
  "calcReadingTime words = nat \<lceil>real words / 238\<rceil>"

definition calcContentHealth :: "string \<Rightarrow> nat" where
  "calcContentHealth text =
     (if trim text = [] then 0
      else
        let words = length (split_matches whitespace_run (trim text));
            found = count_matches (run_of 1 (\<lambda>c. c \<in> set ''.!?'')) text;
            sentences = (if found = 0 then 1 else found);
            avgWordsPerSentence = real words / real sentences;
            hasHeaders = test_match (seq (lit ''<h'') (one_of ''123'')) text;
            hasList = test_match (alt (lit ''<ul'') (lit ''<ol'')) text;
            hasCode = test_match (alt (lit ''<code'') (lit ''<pre'')) text;
            score0 = (40 :: nat);
            score1 = (if 100 \<le> words then score0 + 20 else score0);
            score2 = (if 300 \<le> words then score1 + 10 else score1);
            score3 = (if avgWordsPerSentence < 25 then score2 + 10 else score2);
            score4 = (if hasHeaders then score3 + 10 else score3);
            score5 = (if hasList then score4 + 5 else score4);
            score6 = (if hasCode then score5 + 5 else score5)
        in min score6 100)"

text \<open>\<^verbatim>\<open>updateEditorStats(content)\<close>.\<close>

definition updateEditorStats :: "string \<Rightarrow> editorState \<Rightarrow> editorState" where
  "updateEditorStats content0 state =
     (let text = trim (replace_all whitespace_run (\<lambda>_. '' '')
                         (replace_all any_tag (\<lambda>_. '' '') content0));
          words = (if text \<noteq> [] then length (split_matches whitespace_run text) else 0);
          chars = length text
      in state \<lparr> wordCount := words, charCount := chars,
                   readingTime := calcReadingTime words,
                   contentHealthScore := calcContentHealth content0 \<rparr>)"

text \<open>
  The words of a string, for the statements about the statistics: the string is cut at
  every whitespace character, and the pieces that are not empty are its words.
  \<open>unwords\<close> joins words with single spaces.
\<close>

fun pieces :: "string \<Rightarrow> string list" where
  "pieces [] = [[]]"
| "pieces (c # cs) =
     (if is_space c then [] # pieces cs
      else (case pieces cs of p # ps \<Rightarrow> (c # p) # ps | [] \<Rightarrow> [[c]]))"

definition words_of :: "string \<Rightarrow> string list" where
  "words_of s = filter (\<lambda>w. w \<noteq> []) (pieces s)"

fun unwords :: "string list \<Rightarrow> string" where
  "unwords [] = []"
| "unwords [w] = w"
| "unwords (w # v # ws) = w @ '' '' @ unwords (v # ws)"

text \<open>The part of a string after its last dot (the whole string if it has none).\<close>

definition after_last_dot :: "code_unit list \<Rightarrow> code_unit list" where
  "after_last_dot s = rev (takeWhile (\<lambda>c. c \<noteq> 0x2E) (rev s))"

text \<open>The extension as a function of the title in lower case.\<close>

definition extension_of_lower :: "code_unit list \<Rightarrow> code_unit list option" where
  "extension_of_lower u =
     (let t = trim16 u; seg = after_last_dot t
      in if 0x2E \<in> set t \<and> seg \<noteq> [] \<and> list_all is_alnum seg then Some seg else None)"

text \<open>A document for the examples.\<close>

definition sample_document :: document where
  "sample_document = new_document ''x'' 0 Null False"

subsection \<open>The score as specified\<close>

text \<open>
  The number of maximal runs of characters with a property (a run ends where such a
  character is followed by the end of the string or by a character without the
  property), and the score as the specification describes it, for a given number of
  words: base 40 for a text that is not all whitespace, and the additive bonuses,
  capped at 100.
\<close>

fun count_runs :: "(char \<Rightarrow> bool) \<Rightarrow> string \<Rightarrow> nat" where
  "count_runs P [] = 0"
| "count_runs P [c] = (if P c then 1 else 0)"
| "count_runs P (c # d # r) = (if P c \<and> \<not> P d then 1 else 0) + count_runs P (d # r)"

definition contentHealth_formula :: "nat \<Rightarrow> string \<Rightarrow> nat" where
  "contentHealth_formula words text =
     (if list_all is_space text then 0
      else min 100
        (40 + (if 100 \<le> words then 20 else 0) + (if 300 \<le> words then 10 else 0)
         + (if words < 25 * max 1 (count_runs (\<lambda>c. c \<in> set ''.!?'') text) then 10 else 0)
         + (if sublist ''<h1'' text \<or> sublist ''<h2'' text \<or> sublist ''<h3'' text then 10 else 0)
         + (if sublist ''<ul'' text \<or> sublist ''<ol'' text then 5 else 0)
         + (if sublist ''<code'' text \<or> sublist ''<pre'' text then 5 else 0)))"

text \<open>
  The score with the words counted after each tag has been replaced by a space, as for
  the word count of the editor statistics; and two texts for the examples: a word
  followed by 24 tags, and 350 short sentences with a heading.
\<close>

definition stated_contentHealth :: "string \<Rightarrow> nat" where
  "stated_contentHealth text =
     contentHealth_formula (length (words_of (replace_all any_tag (\<lambda>_. '' '') text))) text"

definition tagged_text :: string where
  "tagged_text = ''x '' @ concat (replicate 24 ''<b> '')"

definition long_text :: string where
  "long_text = ''<p> '' @ concat (replicate 350 ''a. '') @ ''<h1>T</h1></p>''"

section \<open>The reply of the assistant\<close>




























section \<open>Properties of the document store\<close>

subsection \<open>Updating a document that does not exist\<close>

lemma map_of_insert_index:
  "map_of (insert_index n k v docs) = (map_of docs)(k \<mapsto> v)" if "k \<notin> fst ` set docs"
  using that
proof (induction docs)
  case Nil
  then show ?case by simp
next
  case (Cons e docs)
  obtain k' v' where e: "e = (k', v')" by (cases e)
  from Cons.prems e have ne: "k' \<noteq> k" and notin: "k \<notin> fst ` set docs" by auto
  from Cons.IH [OF notin] ne show ?case
    by (auto simp: e fun_upd_twist split: option.splits)
qed

lemma filter_insert_index:
  "filter (\<lambda>(k', v'). k' \<noteq> k) (insert_index n k v docs) = docs" if "k \<notin> fst ` set docs"
  using that
proof (induction docs)
  case Nil
  then show ?case by simp
next
  case (Cons e docs)
  obtain k' v' where e: "e = (k', v')" by (cases e)
  from Cons.prems e have ne: "k' \<noteq> k" and notin: "k \<notin> fst ` set docs" by auto
  have rest: "filter (\<lambda>(k', v'). k' \<noteq> k) docs = docs"
    using notin by (induction docs) auto
  from Cons.IH [OF notin] ne rest show ?case
    by (auto simp: e split: option.splits)
qed

lemma filter_other_keys:
  "filter (\<lambda>(k', v'). k' \<noteq> k) docs = docs" if "k \<notin> fst ` set docs"
  using that by (induction docs) auto

lemma map_of_obj_set_new:
  "map_of (obj_set docs k v) = (map_of docs)(k \<mapsto> v)" if "k \<notin> fst ` set docs"
proof -
  from that have none: "map_of docs k = None"
    by (simp add: map_of_eq_None_iff)
  have "map_of (docs @ [(k, v)]) = (map_of docs)(k \<mapsto> v)"
  proof
    fix x
    show "map_of (docs @ [(k, v)]) x = ((map_of docs)(k \<mapsto> v)) x"
      using none by (cases "x = k") (simp_all add: map_add_def split: option.splits)
  qed
  with that show ?thesis
    by (simp add: obj_set_def map_of_insert_index split: option.splits)
qed

lemma filter_obj_set_new:
  "filter (\<lambda>(k', v'). k' \<noteq> k) (obj_set docs k v) = docs" if "k \<notin> fst ` set docs"
  using that
  by (simp add: obj_set_def filter_insert_index filter_other_keys split: option.splits)

lemma spread_empty_object: "spread empty_object u = u"
  by (simp add: spread_def empty_object_def or_else_def split: option.splits)

lemma obj_get_missing: "obj_get docs k = empty_object" if "k \<notin> fst ` set docs"
proof -
  from that have "map_of docs k = None"
    by (simp add: map_of_eq_None_iff)
  then show ?thesis by (simp add: obj_get_def)
qed

text \<open>
  C1, as the specification states it, fails: an update of an id that is not a key of the
  table creates an entry for that id.  Here the table is empty, and a late save of the
  content \<open>''x''\<close> for the id \<open>''gone''\<close> leaves a table with one entry.
\<close>

theorem updateDocument_missing_id_changes_table:
  "''gone'' \<notin> fst ` set (documents state0) \<and>
   documents (updateDocument 7 state0 ''gone'' (empty_object \<lparr> content := Some ''x'' \<rparr>))
     = [(''gone'', empty_object \<lparr> content := Some ''x'', updatedAt := Some 7 \<rparr>)] \<and>
   documents (updateDocument 7 state0 ''gone'' (empty_object \<lparr> content := Some ''x'' \<rparr>))
     \<noteq> documents state0"
  by (simp add: state0_def updateDocument_def obj_set_def obj_get_def spread_def
      empty_object_def or_else_def array_index_def is_digit_def)

text \<open>
  C1, amended: for every state and every id that is not a key of the table,
  \<open>updateDocument\<close> returns (it cannot throw) and keeps every existing entry as it is
  and where it is, and the rest of the state; but it adds one entry under the id, which
  holds the given fields and the refreshed \<open>updatedAt\<close> and nothing else.
\<close>

theorem updateDocument_missing_id:
  assumes "i \<notin> fst ` set (documents state)"
  shows "map_of (documents (updateDocument now state i updates)) i
           = Some (updates \<lparr> updatedAt := Some now \<rparr>)
       \<and> (\<forall>k. k \<noteq> i \<longrightarrow>
             map_of (documents (updateDocument now state i updates)) k
               = map_of (documents state) k)
       \<and> filter (\<lambda>(k, d). k \<noteq> i) (documents (updateDocument now state i updates))
           = documents state
       \<and> (updateDocument now state i updates) \<lparr> documents := documents state \<rparr> = state"
  using assms
  by (simp add: updateDocument_def obj_get_missing spread_empty_object
      map_of_obj_set_new filter_obj_set_new)

theorem updateDocument_missing_id_witness:
  "''gone'' \<notin> fst ` set (documents state0) \<and>
   map_of (documents (updateDocument 7 state0 ''gone'' (empty_object \<lparr> content := Some ''x'' \<rparr>)))
     ''gone'' = Some (empty_object \<lparr> content := Some ''x'', updatedAt := Some 7 \<rparr>)"
proof -
  have h: "''gone'' \<notin> fst ` set (documents state0)"
    by (simp add: state0_def)
  from updateDocument_missing_id [OF h, of 7 "empty_object \<lparr> content := Some ''x'' \<rparr>"] h
  show ?thesis by simp
qed

subsection \<open>Cascading delete\<close>










text \<open>
  The tables that the store builds are well formed: the empty table is, and creating,
  renaming and deleting a document keep a table well formed, as does an update that
  carries neither an \<^verbatim>\<open>id\<close> nor a \<^verbatim>\<open>parentId\<close>, whether its id is known or not.
\<close>

lemma set_insert_index: "set (insert_index n k v docs) = insert (k, v) (set docs)"
proof (induction docs)
  case Nil
  then show ?case by simp
next
  case (Cons e docs)
  obtain k' v' where e: "e = (k', v')" by (cases e)
  show ?case
  proof (cases "array_index k'")
    case None
    then show ?thesis by (simp add: e)
  next
    case (Some m)
    with Cons.IH show ?thesis by (simp add: e insert_commute)
  qed
qed



lemma fst_insert_index:
  "fst ` set (insert_index n k v docs) = insert k (fst ` set docs)"
  by (simp add: set_insert_index)

lemma distinct_insert_index:
  "k \<notin> fst ` set docs \<Longrightarrow> distinct (map fst docs) \<Longrightarrow>
     distinct (map fst (insert_index n k v docs))"
proof (induction docs)
  case Nil
  then show ?case by simp
next
  case (Cons e docs)
  obtain k' v' where e: "e = (k', v')" by (cases e)
  from Cons.prems e have k: "k \<noteq> k'" "k \<notin> fst ` set docs"
    and d: "k' \<notin> fst ` set docs" "distinct (map fst docs)" by auto
  show ?case
  proof (cases "array_index k'")
    case None
    with Cons.prems k show ?thesis by (simp add: e)
  next
    case (Some m)
    show ?thesis
    proof (cases "m < n")
      case True
      from Cons.IH [OF k(2) d(2)] have "distinct (map fst (insert_index n k v docs))" .
      moreover from d(1) k(1) have "k' \<notin> fst ` set (insert_index n k v docs)"
        by (simp add: fst_insert_index)
      ultimately show ?thesis using Some True by (simp add: e)
    next
      case False
      with Cons.prems k Some show ?thesis by (simp add: e)
    qed
  qed
qed

lemma map_fst_replace:
  "map fst (map (\<lambda>(k', v'). if k' = k then (k', v) else (k', v')) docs) = map fst docs"
  by (induction docs) (simp_all add: case_prod_beta)

lemma distinct_obj_set:
  "distinct (map fst docs) \<Longrightarrow> distinct (map fst (obj_set docs k v))"
proof (cases "k \<in> fst ` set docs")
  case True
  assume "distinct (map fst docs)"
  with True show ?thesis by (simp only: obj_set_def if_True map_fst_replace)
next
  case False
  assume d: "distinct (map fst docs)"
  show ?thesis
  proof (cases "array_index k")
    case None
    with False d show ?thesis by (simp add: obj_set_def)
  next
    case (Some n)
    with False d distinct_insert_index [of k docs n v] show ?thesis by (simp add: obj_set_def)
  qed
qed

lemma set_obj_set: "set (obj_set docs k v) \<subseteq> insert (k, v) (set docs)"
proof (cases "k \<in> fst ` set docs")
  case True
  then have "obj_set docs k v = map (\<lambda>(k', v'). if k' = k then (k', v) else (k', v')) docs"
    by (simp add: obj_set_def)
  then show ?thesis by (auto split: if_splits)
next
  case False
  then show ?thesis
    by (cases "array_index k") (simp_all add: obj_set_def set_insert_index subset_insertI)
qed


lemma wf_table_obj_set:
  assumes "wf_table docs" and "\<And>p. parentId v = Some (Val p) \<Longrightarrow> doc_id v = Some k"
  shows "wf_table (obj_set docs k v)"
proof -
  from assms(1) have "distinct (map fst (obj_set docs k v))"
    by (simp add: wf_table_def distinct_obj_set)
  moreover have "doc_id d = Some j"
    if "(j, d) \<in> set (obj_set docs k v)" "parentId d = Some (Val p)" for j d p
  proof -
    from that(1) set_obj_set [of docs k v] have "(j, d) = (k, v) \<or> (j, d) \<in> set docs" by auto
    with assms that(2) show ?thesis by (auto simp: wf_table_def)
  qed
  ultimately show ?thesis by (auto simp: wf_table_def)
qed

lemma obj_get_parent:
  assumes "wf_table docs" "parentId (obj_get docs k) = Some (Val p)"
  shows "doc_id (obj_get docs k) = Some k"
proof (cases "map_of docs k")
  case None
  with assms(2) show ?thesis by (simp add: obj_get_def empty_object_def)
next
  case (Some d)
  then have "(k, d) \<in> set docs" by (rule map_of_SomeD)
  with assms Some show ?thesis by (auto simp: obj_get_def wf_table_def)
qed

lemma wf_table_createDocument:
  assumes "wf_table (documents state)"
  shows "wf_table (documents (snd (createDocument i now state p f)))"
proof -
  have "wf_table (obj_set (documents state) i (new_document i now p f))"
    using assms by (rule wf_table_obj_set) (simp add: new_document_def)
  then show ?thesis by (simp add: createDocument_def)
qed

lemma wf_table_updateDocument:
  assumes "wf_table (documents state)" "doc_id updates = None" "parentId updates = None"
  shows "wf_table (documents (updateDocument now state i updates))"
proof -
  let ?v = "(spread (obj_get (documents state) i) updates) \<lparr> updatedAt := Some now \<rparr>"
  have "wf_table (obj_set (documents state) i ?v)"
    using assms(1)
  proof (rule wf_table_obj_set)
    fix p assume "parentId ?v = Some (Val p)"
    with assms(3) have "parentId (obj_get (documents state) i) = Some (Val p)"
      by (simp add: spread_def or_else_def)
    with assms(1) have "doc_id (obj_get (documents state) i) = Some i" by (rule obj_get_parent)
    with assms(2) show "doc_id ?v = Some i" by (simp add: spread_def or_else_def)
  qed
  then show ?thesis by (simp add: updateDocument_def)
qed

lemma wf_table_renameDocument:
  assumes "wf_table (documents state)"
  shows "wf_table (documents (renameDocument now state i t))"
proof -
  let ?v = "(obj_get (documents state) i) \<lparr> title := Some t, updatedAt := Some now \<rparr>"
  have "wf_table (obj_set (documents state) i ?v)"
    using assms
  proof (rule wf_table_obj_set)
    fix p assume "parentId ?v = Some (Val p)"
    then have "parentId (obj_get (documents state) i) = Some (Val p)" by simp
    with assms have "doc_id (obj_get (documents state) i) = Some i" by (rule obj_get_parent)
    then show "doc_id ?v = Some i" by simp
  qed
  then show ?thesis by (simp add: renameDocument_def)
qed

lemma wf_table_state0: "wf_table (documents state0)"
  by (simp add: state0_def wf_table_def)




text \<open>
  C4 at a failing input: the active document \<open>d\<close> lies below the folder \<open>f\<close>.
  Deleting \<open>f\<close> removes \<open>d\<close> with it, and the active pointer still names \<open>d\<close>,
  which is no longer in the table, while the document \<open>e\<close> remains.
\<close>

theorem deleteDocument_active_descendant:
  "deleteDocument 3 state1 ''f''
     = Some (state1 \<lparr> documents := [(''e'', new_document ''e'' 0 Null False)] \<rparr>)
   \<and> activeDocumentId (state1 \<lparr> documents := [(''e'', new_document ''e'' 0 Null False)] \<rparr>)
       = Some ''d''
   \<and> ''d'' \<notin> fst ` set [(''e'', new_document ''e'' 0 Null False)]"
  by (simp add: deleteDocument_def state1_def state0_def tree_table_def new_document_def
      Object_values_def Object_keys_def obj_delete_def property_key_def numeral_3_eq_3)




section \<open>Properties of the content converter\<close>

subsection \<open>Escaping\<close>

lemma escaped_markup_append:
  "escaped_markup a \<Longrightarrow> escaped_markup b \<Longrightarrow> escaped_markup (a @ b)"
proof (induction rule: escaped_markup.induct)
  case em_Nil
  then show ?case by simp
next
  case (em_char c s)
  then show ?case using escaped_markup.em_char [of c "s @ b"] by simp
next
  case (em_entity e s)
  then show ?case using escaped_markup.em_entity [of e "s @ b"] by simp
next
  case (em_marker m s)
  then show ?case using escaped_markup.em_marker [of m "s @ b"] by simp
qed

lemma escaped_markup_concat:
  "(\<And>x. x \<in> set xs \<Longrightarrow> escaped_markup x) \<Longrightarrow> escaped_markup (concat xs)"
  by (induction xs) (auto intro: em_Nil escaped_markup_append)

lemma replace_all_one_of:
  "replace_all (one_of cls) f s = concat (map (\<lambda>c. if c \<in> set cls then f [c] else [c]) s)"
  by (induction s) (simp_all add: one_of_def)

lemma replace_all_lit1:
  "replace_all (lit [x]) f s = concat (map (\<lambda>c. if c = x then f [x] else [c]) s)"
  by (induction s) (simp_all add: lit_def)

lemma split_matches_chars:
  "p \<in> set (split_matches m s) \<Longrightarrow> set p \<subseteq> set s"
proof (induction m s arbitrary: p rule: split_matches.induct)
  case (1 m)
  then show ?case by simp
next
  case (2 m c cs)
  show ?case
  proof (cases "m (c # cs)")
    case None
    show ?thesis
    proof (cases "split_matches m cs")
      case Nil
      with 2 None show ?thesis by auto
    next
      case (Cons q qs)
      with "2.prems" None have "p = c # q \<or> p \<in> set qs" by auto
      moreover from "2.IH"(1) [OF None, of q] Cons have "set q \<subseteq> set cs" by simp
      moreover have "set p \<subseteq> set cs" if "p \<in> set qs"
        using "2.IH"(1) [OF None, of p] Cons that by simp
      ultimately show ?thesis by auto
    qed
  next
    case (Some n)
    with 2 have "p = [] \<or> p \<in> set (split_matches m (drop (n - 1) cs))" by auto
    then show ?thesis
    proof
      assume "p = []" then show ?thesis by simp
    next
      assume "p \<in> set (split_matches m (drop (n - 1) cs))"
      from "2.IH"(2) [OF Some this] have "set p \<subseteq> set (drop (n - 1) cs)" .
      also have "\<dots> \<subseteq> set (c # cs)" by (auto dest: in_set_dropD)
      finally show ?thesis .
    qed
  qed
qed

lemma escape_char_NL: "escape_char NL = [NL]"
  by (simp add: escape_char_def)

lemma escape_char_not_NL: "c \<noteq> NL \<Longrightarrow> NL \<notin> set (escape_char c) \<and> escape_char c \<noteq> []"
  by (auto simp: escape_char_def htmlEscape_def)

lemma escape_char_hd: "c \<noteq> NL \<Longrightarrow> \<exists>x xs. escape_char c = x # xs \<and> x \<noteq> NL"
  using escape_char_not_NL [of c] by (cases "escape_char c") auto

lemma takeWhile_NL_escape:
  "takeWhile (\<lambda>c. c = NL) (concat (map escape_char s)) = takeWhile (\<lambda>c. c = NL) s"
proof (induction s)
  case Nil
  then show ?case by simp
next
  case (Cons c s)
  show ?case
  proof (cases "c = NL")
    case True
    with Cons show ?thesis by (simp add: escape_char_NL)
  next
    case False
    from escape_char_hd [OF False] obtain x xs where "escape_char c = x # xs" "x \<noteq> NL" by blast
    with False show ?thesis by simp
  qed
qed

lemma blank_line_escape:
  "run_of 2 (\<lambda>c. c = NL) (concat (map escape_char s)) = run_of 2 (\<lambda>c. c = NL) s"
  by (simp add: run_of_def takeWhile_NL_escape)

lemma dropWhile_NL_escape:
  "dropWhile (\<lambda>c. c = NL) (concat (map escape_char s))
     = concat (map escape_char (dropWhile (\<lambda>c. c = NL) s))"
proof (induction s)
  case Nil
  then show ?case by simp
next
  case (Cons c s)
  show ?case
  proof (cases "c = NL")
    case True
    with Cons show ?thesis by (simp add: escape_char_NL)
  next
    case False
    from escape_char_hd [OF False] obtain x xs where "escape_char c = x # xs" "x \<noteq> NL" by blast
    with False show ?thesis by simp
  qed
qed

lemma split_matches_not_Nil: "split_matches m s \<noteq> []"
  by (cases s) (auto split: option.splits list.splits)

lemma run_of_drop:
  "run_of k P (c # cs) = Some n \<Longrightarrow> 0 < k \<Longrightarrow> drop (n - Suc 0) cs = dropWhile P cs"
  by (auto simp: run_of_def Let_def dropWhile_eq_drop split: if_splits)

lemma run_of_Some_hd: "run_of k P (c # cs) = Some n \<Longrightarrow> 0 < k \<Longrightarrow> P c"
  by (auto simp: run_of_def Let_def split: if_splits)

lemma split_blank_prefix:
  "NL \<notin> set w \<Longrightarrow>
   split_matches (run_of 2 (\<lambda>c. c = NL)) (w @ r)
     = (case split_matches (run_of 2 (\<lambda>c. c = NL)) r of p # ps \<Rightarrow> (w @ p) # ps | [] \<Rightarrow> [w])"
proof (induction w)
  case Nil
  then show ?case by (simp split: list.splits add: split_matches_not_Nil)
next
  case (Cons x w)
  then have "run_of 2 (\<lambda>c. c = NL) (x # w @ r) = None"
    by (auto simp: run_of_def)
  with Cons show ?case
    by (simp split: list.splits)
qed

lemma split_blank_escape:
  "split_matches (run_of 2 (\<lambda>c. c = NL)) (concat (map escape_char t))
     = map (\<lambda>p. concat (map escape_char p)) (split_matches (run_of 2 (\<lambda>c. c = NL)) t)"
proof (induction "run_of 2 (\<lambda>c. c = NL)" t rule: split_matches.induct)
  case 1
  then show ?case by simp
next
  case (2 c cs)
  let ?B = "run_of 2 (\<lambda>c. c = NL)"
  show ?case
  proof (cases "?B (c # cs)")
    case (Some n)
    then have c: "c = NL" by (auto dest: run_of_Some_hd)
    from Some have d: "drop (n - Suc 0) cs = dropWhile (\<lambda>c. c = NL) cs"
      by (auto dest: run_of_drop)
    from Some have B': "?B (NL # concat (map escape_char cs)) = Some n"
      using blank_line_escape [of "c # cs"] by (simp add: c escape_char_NL)
    then have d': "drop (n - Suc 0) (concat (map escape_char cs))
        = dropWhile (\<lambda>c. c = NL) (concat (map escape_char cs))"
      by (auto dest: run_of_drop)
    from "2.hyps"(2) [OF Some] d
    have IH: "split_matches ?B (concat (map escape_char (dropWhile (\<lambda>c. c = NL) cs)))
      = map (\<lambda>p. concat (map escape_char p)) (split_matches ?B (dropWhile (\<lambda>c. c = NL) cs))"
      by simp
    show ?thesis
      using Some B' IH by (simp add: c escape_char_NL d d' dropWhile_NL_escape)
  next
    case None
    from "2.hyps"(1) [OF None]
    have IH: "split_matches ?B (concat (map escape_char cs))
      = map (\<lambda>p. concat (map escape_char p)) (split_matches ?B cs)" .
    obtain p ps where pp: "split_matches ?B cs = p # ps"
      using split_matches_not_Nil [of ?B cs] by (cases "split_matches ?B cs") auto
    show ?thesis
    proof (cases "c = NL")
      case True
      from None have "?B (NL # concat (map escape_char cs)) = None"
        using blank_line_escape [of "c # cs"] by (simp add: True escape_char_NL)
      with None IH pp show ?thesis by (simp add: True escape_char_NL)
    next
      case False
      with escape_char_not_NL have "NL \<notin> set (escape_char c)" by blast
      from split_blank_prefix [OF this, of "concat (map escape_char cs)"] None IH pp
      show ?thesis by simp
    qed
  qed
qed

lemma escape_step:
  "replace_all (one_of [CHR ''&'', CHR ''<'', CHR ''>'', DQUOTE, SQUOTE])
     (\<lambda>ch. case map_of htmlEscape ch of Some e \<Rightarrow> e | None \<Rightarrow> ch) t
   = concat (map escape_char t)"
  unfolding replace_all_one_of escape_char_def by (rule arg_cong [where f = concat]) simp

lemma render_char_escape: "c \<noteq> NL \<Longrightarrow> render_char c = escape_char c"
  by (simp add: render_char_def escape_char_def htmlEscape_def)

lemma breaks_no_NL:
  "NL \<notin> set w \<Longrightarrow> concat (map (\<lambda>c. if c = NL then ''<br>'' else [c]) w) = w"
  by (induction w) auto

lemma breaks_step:
  "replace_all (lit [NL]) (\<lambda>_. ''<br>'') (concat (map escape_char p))
     = concat (map render_char p)"
proof -
  have "concat (map (\<lambda>c. if c = NL then ''<br>'' else [c]) (concat (map escape_char p)))
      = concat (map render_char p)"
  proof (induction p)
    case Nil
    then show ?case by simp
  next
    case (Cons c p)
    show ?case
    proof (cases "c = NL")
      case True
      with Cons show ?thesis by (simp add: escape_char_NL render_char_def)
    next
      case False
      with escape_char_not_NL have "NL \<notin> set (escape_char c)" by blast
      from breaks_no_NL [OF this] Cons render_char_escape [OF False]
      show ?thesis by simp
    qed
  qed
  then show ?thesis by (simp add: replace_all_lit1)
qed

lemma render_char_not_Nil: "render_char c \<noteq> []"
  by (simp add: render_char_def)

lemma render_empty: "concat (map render_char p) = [] \<longleftrightarrow> p = []"
  by (cases p) (simp_all add: render_char_not_Nil)

lemma plainTextToHtml_paragraphs:
  assumes "t \<noteq> []"
  shows "plainTextToHtml t =
     concat (map (\<lambda>p. ''<p>'' @ (if p = [] then ''<br>'' else concat (map render_char p)) @ ''</p>'')
       (split_matches (run_of 2 (\<lambda>c. c = NL)) t))"
  using assms
  by (simp del: concat_eq_Nil_conv
      add: plainTextToHtml_def escape_step split_blank_escape Let_def comp_def
        breaks_step render_empty cong: if_cong)

lemma escaped_markup_render_char: "escaped_markup (render_char c)"
proof -
  have "render_char c = [c] \<and> c \<notin> set [CHR ''&'', CHR ''<'', CHR ''>'', DQUOTE, SQUOTE]
      \<or> render_char c \<in> set [''&amp;'', ''&lt;'', ''&gt;'', ''&quot;'', ''&#39;'']
      \<or> render_char c \<in> set [''<p>'', ''</p>'', ''<br>'']"
    by (simp add: render_char_def)
  then show ?thesis
    using em_char [OF _ em_Nil, of c] em_entity [OF _ em_Nil, of "render_char c"]
      em_marker [OF _ em_Nil, of "render_char c"]
    by auto
qed

lemma escaped_markup_paragraph:
  "escaped_markup (''<p>'' @ (if p = [] then ''<br>'' else concat (map render_char p)) @ ''</p>'')"
proof -
  have "escaped_markup (concat (map render_char p))"
    by (rule escaped_markup_concat) (auto simp: escaped_markup_render_char)
  then have body: "escaped_markup (if p = [] then ''<br>'' else concat (map render_char p))"
    using em_marker [OF _ em_Nil, of "''<br>''"] by simp
  have close: "escaped_markup ''</p>''"
    using em_marker [OF _ em_Nil, of "''</p>''"] by simp
  from escaped_markup_append [OF body close]
  show ?thesis
    using em_marker [of "''<p>''" "(if p = [] then ''<br>'' else concat (map render_char p)) @ ''</p>''"]
    by simp
qed

lemma escaped_markup_plainTextToHtml: "escaped_markup (plainTextToHtml t)"
proof (cases "t = []")
  case True
  have "escaped_markup (''<p>'' @ ''</p>'' @ [])"
    by (intro em_marker em_Nil) simp_all
  with True show ?thesis by (simp add: plainTextToHtml_def)
next
  case False
  have "escaped_markup (concat (map (\<lambda>p. ''<p>'' @ (if p = [] then ''<br>'' else concat (map render_char p)) @ ''</p>'')
       (split_matches (run_of 2 (\<lambda>c. c = NL)) t)))"
  proof (rule escaped_markup_concat)
    fix x
    assume "x \<in> set (map (\<lambda>p. ''<p>'' @ (if p = [] then ''<br>'' else concat (map render_char p)) @ ''</p>'')
       (split_matches (run_of 2 (\<lambda>c. c = NL)) t))"
    then obtain p where "x = ''<p>'' @ (if p = [] then ''<br>'' else concat (map render_char p)) @ ''</p>''"
      by auto
    then show "escaped_markup x" by (simp only: escaped_markup_paragraph)
  qed
  with plainTextToHtml_paragraphs [OF False] show ?thesis
    by simp
qed

lemma escaped_markup_lt:
  "escaped_markup s \<Longrightarrow> suffix u s \<Longrightarrow> prefix ''<'' u \<Longrightarrow>
   prefix ''<p>'' u \<or> prefix ''</p>'' u \<or> prefix ''<br>'' u"
proof (induction arbitrary: u rule: escaped_markup.induct)
  case em_Nil
  then show ?case by simp
next
  case (em_char c s)
  from em_char.prems em_char.hyps(1) em_char.IH [of u] show ?case
    by (auto simp: suffix_Cons)
next
  case (em_entity e s)
  from em_entity.prems em_entity.hyps(1) em_entity.IH [of u] show ?case
    by (auto simp: suffix_Cons)
next
  case (em_marker m s)
  from em_marker.prems em_marker.hyps(1) em_marker.IH [of u] show ?case
    by (auto simp: suffix_Cons)
qed

lemma escaped_markup_amp:
  "escaped_markup s \<Longrightarrow> suffix u s \<Longrightarrow> prefix ''&'' u \<Longrightarrow>
   prefix ''&amp;'' u \<or> prefix ''&lt;'' u \<or> prefix ''&gt;'' u \<or> prefix ''&quot;'' u
     \<or> prefix ''&#39;'' u"
proof (induction arbitrary: u rule: escaped_markup.induct)
  case em_Nil
  then show ?case by simp
next
  case (em_char c s)
  from em_char.prems em_char.hyps(1) em_char.IH [of u] show ?case
    by (auto simp: suffix_Cons)
next
  case (em_entity e s)
  from em_entity.prems em_entity.hyps(1) em_entity.IH [of u] show ?case
    by (auto simp: suffix_Cons)
next
  case (em_marker m s)
  from em_marker.prems em_marker.hyps(1) em_marker.IH [of u] show ?case
    by (auto simp: suffix_Cons)
qed

lemma escaped_markup_quotes:
  "escaped_markup s \<Longrightarrow> DQUOTE \<notin> set s \<and> SQUOTE \<notin> set s"
  by (induction rule: escaped_markup.induct) auto

text \<open>
  C10: \<open>plainTextToHtml\<close> turns every paragraph of the input (the pieces between runs
  of two or more line breaks) into \<open><p>\<close>, the rendering of each of its characters
  (\<open><br>\<close> alone for an empty paragraph) and \<open></p>\<close>, where every \<open>&\<close>, \<open><\<close>, \<open>>\<close> and
  quote is rendered as its entity.  So wherever a \<open><\<close> stands in the output, one of
  the markers \<open><p>\<close>, \<open></p>\<close>, \<open><br>\<close> starts there; wherever a \<open>&\<close> stands, one of
  the five entities starts there; and no quote occurs in the output.
\<close>

theorem plainTextToHtml_escapes:
  "(t \<noteq> [] \<longrightarrow> plainTextToHtml t =
      concat (map (\<lambda>p. ''<p>'' @ (if p = [] then ''<br>'' else concat (map render_char p)) @ ''</p>'')
        (split_matches (run_of 2 (\<lambda>c. c = NL)) t)))
   \<and> (\<forall>u. suffix u (plainTextToHtml t) \<and> prefix ''<'' u \<longrightarrow>
         prefix ''<p>'' u \<or> prefix ''</p>'' u \<or> prefix ''<br>'' u)
   \<and> (\<forall>u. suffix u (plainTextToHtml t) \<and> prefix ''&'' u \<longrightarrow>
         prefix ''&amp;'' u \<or> prefix ''&lt;'' u \<or> prefix ''&gt;'' u \<or> prefix ''&quot;'' u
           \<or> prefix ''&#39;'' u)
   \<and> DQUOTE \<notin> set (plainTextToHtml t) \<and> SQUOTE \<notin> set (plainTextToHtml t)"
  using plainTextToHtml_paragraphs [of t] escaped_markup_plainTextToHtml [of t]
    escaped_markup_lt [of "plainTextToHtml t"] escaped_markup_amp [of "plainTextToHtml t"]
    escaped_markup_quotes [of "plainTextToHtml t"]
  by blast

theorem plainTextToHtml_escapes_witness:
  "''<b>&'' \<noteq> [] \<and> plainTextToHtml ''<b>&'' = ''<p>&lt;b&gt;&amp;</p>''
   \<and> suffix ''</p>'' (plainTextToHtml ''<b>&'') \<and> prefix ''<'' ''</p>''
   \<and> prefix ''</p>'' ''</p>''"
proof -
  have eq: "plainTextToHtml ''<b>&'' = ''<p>&lt;b&gt;&amp;</p>''"
    using plainTextToHtml_escapes [of "''<b>&''"]
    by (simp add: run_of_def render_char_def)
  then show ?thesis by (simp add: suffix_def)
qed

subsection \<open>The round trip of plain text\<close>

lemma line_terminator_space: "is_line_terminator c \<Longrightarrow> is_space c"
  by (auto simp: is_line_terminator_def is_space_def)

lemma NL_space: "is_space NL" "is_line_terminator NL"
  by (simp_all add: is_space_def is_line_terminator_def)

lemma replace_all_no_match:
  "(\<And>c r. c \<in> set s \<Longrightarrow> m (c # r) = None) \<Longrightarrow> replace_all m f s = s"
  by (induction s) simp_all

lemma block_tag_p: "block_tag (''<p>'' @ r) = Some 3"
  by (simp add: block_tag_def seq_def lit_def lit_ci_def opt_then_def empty_match_def
      toLowerCase_def toLowerCase_char_def word_end_then_def until_gt_def is_word_char_def)

lemma block_tag_close_p: "block_tag (''</p>'' @ r) = Some 4"
  by (simp add: block_tag_def seq_def lit_def lit_ci_def opt_then_def empty_match_def
      toLowerCase_def toLowerCase_char_def word_end_then_def until_gt_def is_word_char_def)

lemma block_tag_br: "block_tag (''<br>'' @ r) = Some 4"
  by (simp add: block_tag_def seq_def lit_def lit_ci_def opt_then_def empty_match_def one_of_def
      toLowerCase_def toLowerCase_char_def word_end_then_def until_gt_def is_word_char_def)

lemma block_tag_other: "c \<noteq> CHR ''<'' \<Longrightarrow> block_tag (c # r) = None"
  by (simp add: block_tag_def seq_def lit_def)

lemma toLowerCase_char_range:
  "toLowerCase_char c = c \<or> of_char (toLowerCase_char c) \<in> {97..122::nat} \<union> {224..254}"
proof -
  have "of_char (char_of (of_char c + (32::nat)) :: char) = of_char c + (32::nat)"
    if "(of_char c :: nat) \<le> 222"
    using that by (simp add: of_char_of)
  then show ?thesis
    by (auto simp: toLowerCase_char_def Let_def)
qed

lemma toLowerCase_char_lt: "CHR ''<'' = toLowerCase_char c \<longleftrightarrow> c = CHR ''<''"
proof
  assume a: "CHR ''<'' = toLowerCase_char c"
  then have "(of_char (toLowerCase_char c) :: nat) = 60" by (simp flip: a)
  with toLowerCase_char_range [of c] have "toLowerCase_char c = c" by auto
  with a show "c = CHR ''<''" by simp
next
  assume "c = CHR ''<''"
  then show "CHR ''<'' = toLowerCase_char c" by (simp add: toLowerCase_char_def)
qed

lemma br_tag_other: "c \<noteq> CHR ''<'' \<Longrightarrow> br_tag (c # r) = None"
  by (simp add: br_tag_def seq_def lit_ci_def toLowerCase_def toLowerCase_char_lt)

lemma any_tag_other: "c \<noteq> CHR ''<'' \<Longrightarrow> any_tag (c # r) = None"
  by (simp add: any_tag_def seq_def lit_def)

lemma lit_other: "p \<noteq> [] \<Longrightarrow> c \<noteq> hd p \<Longrightarrow> lit p (c # r) = None"
  by (cases p) (auto simp: lit_def)

lemma apos_other:
  "c \<noteq> CHR ''&'' \<Longrightarrow> alt (lit ''&#39;'') (lit ''&apos;'') (c # r) = None"
  by (simp add: alt_def seq_def lit_def)

lemma replace_block_tags_breaks:
  "CHR ''<'' \<notin> set t \<Longrightarrow>
   replace_all block_tag (\<lambda>_. [NL]) (breaks t @ rest)
     = t @ replace_all block_tag (\<lambda>_. [NL]) rest"
proof (induction t)
  case Nil
  then show ?case by (simp add: breaks_def)
next
  case (Cons c t)
  then have IH: "replace_all block_tag (\<lambda>_. [NL]) (breaks t @ rest)
     = t @ replace_all block_tag (\<lambda>_. [NL]) rest" by simp
  show ?case
  proof (cases "c = NL")
    case True
    have "breaks (c # t) @ rest = ''<br>'' @ (breaks t @ rest)"
      by (simp add: breaks_def True)
    with block_tag_br [of "breaks t @ rest"] IH show ?thesis
      by (simp add: True)
  next
    case False
    from Cons.prems have "c \<noteq> CHR ''<''" by auto
    from block_tag_other [OF this] False IH show ?thesis
      by (simp add: breaks_def)
  qed
qed

lemma replace_block_tags_paragraph:
  assumes "CHR ''<'' \<notin> set t"
  shows "replace_all block_tag (\<lambda>_. [NL]) (''<p>'' @ breaks t @ ''</p>'') = NL # t @ [NL]"
proof -
  have "replace_all block_tag (\<lambda>_. [NL]) (''<p>'' @ breaks t @ ''</p>'')
      = NL # replace_all block_tag (\<lambda>_. [NL]) (breaks t @ ''</p>'')"
    using block_tag_p [of "breaks t @ ''</p>''"] by simp
  also have "replace_all block_tag (\<lambda>_. [NL]) (breaks t @ ''</p>'')
      = t @ replace_all block_tag (\<lambda>_. [NL]) ''</p>''"
    using assms by (rule replace_block_tags_breaks)
  also have "replace_all block_tag (\<lambda>_. [NL]) ''</p>'' = [NL]"
    using block_tag_close_p [of "[]"] by simp
  finally show ?thesis by simp
qed

lemma spaced_tl: "spaced (c # s) \<Longrightarrow> spaced s"
  by (cases s) simp_all

lemma spaced_no_run3:
  "spaced s \<Longrightarrow> replace_all (run_of 3 (\<lambda>c. c = NL)) f s = s"
proof (induction s)
  case Nil
  then show ?case by simp
next
  case (Cons c s)
  have "run_of 3 (\<lambda>c. c = NL) (c # s) = None"
  proof (cases s)
    case Nil
    then show ?thesis by (simp add: run_of_def)
  next
    case (Cons d r)
    with Cons.prems show ?thesis
      by (auto simp: run_of_def NL_space)
  qed
  with Cons spaced_tl [OF Cons.prems] show ?case by simp
qed

lemma spaces_to_eol_spaced:
  "spaced (c # s) \<Longrightarrow> is_space c \<Longrightarrow>
   spaces_to_eol s = (if list_all is_space s then Some (length s) else None)"
proof (induction s arbitrary: c)
  case Nil
  then show ?case by simp
next
  case (Cons d s)
  from Cons.prems have d: "\<not> is_line_terminator d" and sp: "spaced (d # s)" by simp_all
  show ?case
  proof (cases "is_space d")
    case True
    from Cons.IH [OF sp True] d True show ?thesis by simp
  next
    case False
    with d show ?thesis by simp
  qed
qed

lemma space_eol_spaced:
  "spaced (c # s) \<Longrightarrow>
   space_eol (c # s) = (if list_all is_space (c # s) then Some (length (c # s)) else None)"
  using spaces_to_eol_spaced [of c s]
  by (auto simp: space_eol_def seq_def one_if_def)

lemma strip_line_ends_spaced:
  "spaced s \<Longrightarrow> replace_all space_eol (\<lambda>_. []) s = rev (dropWhile is_space (rev s))"
proof (induction s)
  case Nil
  then show ?case by simp
next
  case (Cons c s)
  note eol = space_eol_spaced [OF Cons.prems]
  from Cons have IH: "replace_all space_eol (\<lambda>_. []) s = rev (dropWhile is_space (rev s))"
    by (simp add: spaced_tl)
  show ?case
  proof (cases "list_all is_space (c # s)")
    case True
    then have "dropWhile is_space (rev s @ [c]) = []"
      by (auto simp: list_all_iff)
    with eol True show ?thesis by simp
  next
    case False
    have "rev (dropWhile is_space (rev s @ [c])) = c # rev (dropWhile is_space (rev s))"
    proof (cases "list_all is_space s")
      case True
      with False have "\<not> is_space c" by simp
      moreover from True have "dropWhile is_space (rev s) = []"
        by (auto simp: list_all_iff)
      moreover from True have "dropWhile is_space (rev s @ [c]) = dropWhile is_space [c]"
        by (intro dropWhile_append2) (auto simp: list_all_iff)
      ultimately show ?thesis by simp
    next
      case False
      then obtain x where "x \<in> set (rev s)" "\<not> is_space x"
        by (auto simp: list_all_iff)
      then show ?thesis by (simp add: dropWhile_append1)
    qed
    with eol False IH show ?thesis by simp
  qed
qed

lemma trim_eq_Nil: "trim s = [] \<longleftrightarrow> list_all is_space s"
proof -
  have "dropWhile is_space (rev (dropWhile is_space s)) = [] \<longleftrightarrow> dropWhile is_space s = []"
  proof
    assume a: "dropWhile is_space (rev (dropWhile is_space s)) = []"
    show "dropWhile is_space s = []"
    proof (rule ccontr)
      assume "dropWhile is_space s \<noteq> []"
      then have "\<not> is_space (hd (dropWhile is_space s))" by (rule hd_dropWhile)
      moreover from \<open>dropWhile is_space s \<noteq> []\<close>
      have "hd (dropWhile is_space s) \<in> set (rev (dropWhile is_space s))" by simp
      ultimately show False using a by (auto simp: dropWhile_eq_Nil_conv)
    qed
  next
    assume "dropWhile is_space s = []"
    then show "dropWhile is_space (rev (dropWhile is_space s)) = []"
      by (simp only: rev.simps dropWhile.simps)
  qed
  then show ?thesis
    by (simp add: trim_def dropWhile_eq_Nil_conv list_all_iff)
qed

lemma trim_clean:
  "s \<noteq> [] \<Longrightarrow> \<not> is_space (hd s) \<Longrightarrow> \<not> is_space (last s) \<Longrightarrow> trim s = s"
proof -
  assume a: "s \<noteq> []" "\<not> is_space (hd s)" "\<not> is_space (last s)"
  then have "dropWhile is_space s = s" by (cases s) auto
  moreover from a have "dropWhile is_space (rev s) = rev s"
    by (cases "rev s") (auto simp: last_rev [symmetric] simp del: last_rev)
  ultimately show ?thesis by (simp add: trim_def)
qed

lemma tidy_spaced:
  assumes "\<forall>i<length t. is_space (t ! i) \<longrightarrow> Suc i < length t \<and> \<not> is_line_terminator (t ! Suc i)"
  shows "spaced t \<and> (t \<noteq> [] \<longrightarrow> \<not> is_space (last t))"
  using assms
proof (induction t rule: spaced.induct)
  case 1
  then show ?case by simp
next
  case (2 c)
  then show ?case by auto
next
  case (3 c d r)
  have "\<forall>i<length (d # r). is_space ((d # r) ! i) \<longrightarrow>
      Suc i < length (d # r) \<and> \<not> is_line_terminator ((d # r) ! Suc i)"
  proof (intro allI impI)
    fix i assume "i < length (d # r)" "is_space ((d # r) ! i)"
    with "3.prems" [rule_format, of "Suc i"]
    show "Suc i < length (d # r) \<and> \<not> is_line_terminator ((d # r) ! Suc i)" by simp
  qed
  from "3.IH" [OF this] "3.prems" [rule_format, of 0] show ?case by simp
qed

lemma spaced_snoc:
  "spaced t \<Longrightarrow> t \<noteq> [] \<Longrightarrow> \<not> is_space (last t) \<Longrightarrow> spaced (t @ [NL])"
  by (induction t rule: spaced.induct) (auto split: if_splits)

lemma spaced_split:
  "spaced t \<Longrightarrow> split_matches (run_of 2 (\<lambda>c. c = NL)) t = [t]"
proof (induction t)
  case Nil
  then show ?case by simp
next
  case (Cons c t)
  have "run_of 2 (\<lambda>c. c = NL) (c # t) = None"
  proof (cases t)
    case Nil
    then show ?thesis by (simp add: run_of_def)
  next
    case (Cons d r)
    with Cons.prems show ?thesis by (auto simp: run_of_def NL_space)
  qed
  with Cons spaced_tl [OF Cons.prems] show ?case by simp
qed

lemma render_plain:
  "set t \<inter> set [CHR ''&'', CHR ''<'', CHR ''>'', DQUOTE, SQUOTE] = {} \<Longrightarrow>
   concat (map render_char t) = breaks t"
  unfolding breaks_def
  by (rule arg_cong [where f = concat]) (auto simp: render_char_def)

lemma plainTextToHtml_simple:
  assumes "t \<noteq> []"
    and "set t \<inter> set [CHR ''&'', CHR ''<'', CHR ''>'', DQUOTE, SQUOTE] = {}"
    and "spaced t"
  shows "plainTextToHtml t = ''<p>'' @ breaks t @ ''</p>''"
  using assms plainTextToHtml_paragraphs [OF assms(1)]
  by (simp add: spaced_split render_plain)

lemma htmlToPlainText_paragraph:
  assumes ne: "t \<noteq> []"
    and plain: "CHR ''<'' \<notin> set t" "CHR ''&'' \<notin> set t"
    and sp: "spaced t"
    and hd: "\<not> is_space (hd t)"
    and last: "\<not> is_space (last t)"
  shows "htmlToPlainText (''<p>'' @ breaks t @ ''</p>'') = t"
proof -
  let ?w = "NL # t @ [NL]"
  have nonblank: "trim (''<p>'' @ breaks t @ ''</p>'') \<noteq> []"
    by (simp add: trim_eq_Nil is_space_def)
  have w1: "replace_all block_tag (\<lambda>_. [NL]) (''<p>'' @ breaks t @ ''</p>'') = ?w"
    using plain(1) by (rule replace_block_tags_paragraph)
  have lt: "CHR ''<'' \<notin> set ?w" and amp: "CHR ''&'' \<notin> set ?w"
    using plain by simp_all
  have w2: "replace_all br_tag f ?w = ?w" for f
    by (rule replace_all_no_match) (use lt in \<open>auto intro: br_tag_other\<close>)
  have w3: "replace_all any_tag f ?w = ?w" for f
    by (rule replace_all_no_match) (use lt in \<open>auto intro: any_tag_other\<close>)
  have w4: "replace_all (lit p) f ?w = ?w" if "p \<noteq> []" "hd p = CHR ''&''" for p f
    by (rule replace_all_no_match) (use amp that in \<open>auto intro!: lit_other\<close>)
  have w5: "replace_all (alt (lit ''&#39;'') (lit ''&apos;'')) f ?w = ?w" for f
    by (rule replace_all_no_match) (use amp in \<open>auto intro: apos_other\<close>)
  have "spaced (t @ [NL])"
    using sp ne last by (rule spaced_snoc)
  moreover have "\<not> is_line_terminator (hd (t @ [NL]))"
    using ne hd by (auto dest: line_terminator_space)
  ultimately have spw: "spaced ?w"
    using ne by (cases t) simp_all
  have w6: "replace_all (run_of 3 (\<lambda>c. c = NL)) f ?w = ?w" for f
    using spw by (rule spaced_no_run3)
  have "dropWhile is_space (NL # rev t @ [NL]) = rev t @ [NL]"
    using ne last by (cases "rev t") (auto simp: NL_space last_rev [symmetric] simp del: last_rev)
  then have w7: "replace_all space_eol (\<lambda>_. []) ?w = NL # t"
    using strip_line_ends_spaced [OF spw] by simp
  have "dropWhile is_space (NL # t) = t"
    using ne hd by (cases t) (auto simp: NL_space)
  moreover have "dropWhile is_space (rev t) = rev t"
    using ne last by (cases "rev t") (auto simp: last_rev [symmetric] simp del: last_rev)
  ultimately have w8: "trim (NL # t) = t"
    by (simp add: trim_def)
  have w4s:
    "replace_all (lit ''&nbsp;'') f ?w = ?w"
    "replace_all (lit ''&amp;'') f ?w = ?w"
    "replace_all (lit ''&lt;'') f ?w = ?w"
    "replace_all (lit ''&gt;'') f ?w = ?w"
    "replace_all (lit ''&quot;'') f ?w = ?w" for f
    by (rule w4; simp)+
  show ?thesis
    unfolding htmlToPlainText_def Let_def
    using nonblank by (simp only: if_False w1 w2 w3 w4s w5 w6 w7 w8)
qed

text \<open>
  C2, amended: the round trip \<open>htmlToPlainText (plainTextToHtml t) = t\<close> holds for
  every text \<open>t\<close> that contains none of \<open>&\<close>, \<open><\<close>, \<open>>\<close> and the quotes, that does not
  start with whitespace, and in which every whitespace character is followed by a
  character that is not a line terminator (so that no line ends in whitespace, the text
  does not end in whitespace, and there is no blank line).  The empty text becomes
  \<open><p></p>\<close>, and markup that is empty or all whitespace becomes the empty text.
\<close>

theorem roundtrip_simple_text:
  assumes "set t \<inter> set [CHR ''&'', CHR ''<'', CHR ''>'', DQUOTE, SQUOTE] = {}"
    and "t \<noteq> [] \<longrightarrow> \<not> is_space (hd t)"
    and "\<forall>i<length t. is_space (t ! i) \<longrightarrow>
           Suc i < length t \<and> \<not> is_line_terminator (t ! Suc i)"
  shows "htmlToPlainText (plainTextToHtml t) = t
     \<and> plainTextToHtml [] = ''<p></p>''
     \<and> (\<forall>s. list_all is_space s \<longrightarrow> htmlToPlainText s = [])"
proof -
  have empty: "plainTextToHtml [] = ''<p></p>''"
    by (simp add: plainTextToHtml_def)
  have blank: "htmlToPlainText s = []" if "list_all is_space s" for s
    using that by (simp add: htmlToPlainText_def trim_eq_Nil)
  have "htmlToPlainText (plainTextToHtml t) = t"
  proof (cases "t = []")
    case True
    have "htmlToPlainText ''<p></p>'' = []"
      by code_simp
    with True empty show ?thesis by simp
  next
    case False
    from tidy_spaced [OF assms(3)] False have sp: "spaced t" and last: "\<not> is_space (last t)"
      by simp_all
    from assms(2) False have hd: "\<not> is_space (hd t)" by simp
    from assms(1) have plain: "CHR ''<'' \<notin> set t" "CHR ''&'' \<notin> set t" by auto
    from plainTextToHtml_simple [OF False assms(1) sp]
      htmlToPlainText_paragraph [OF False plain sp hd last]
    show ?thesis by simp
  qed
  with empty blank show ?thesis by blast
qed

text \<open>
  C2, as the specification states it, fails: the text \<open>'' a''\<close> has no special
  character and no run of line breaks, and comes back as \<open>''a''\<close>, since
  \<open>htmlToPlainText\<close> trims its result.
\<close>

theorem roundtrip_leading_space:
  "set '' a'' \<inter> set [CHR ''&'', CHR ''<'', CHR ''>'', DQUOTE, SQUOTE] = {}
   \<and> \<not> test_match (run_of 2 (\<lambda>c. c = NL)) '' a''
   \<and> htmlToPlainText (plainTextToHtml '' a'') = ''a''
   \<and> htmlToPlainText (plainTextToHtml '' a'') \<noteq> '' a''"
proof -
  have "htmlToPlainText (plainTextToHtml '' a'') = ''a''"
    by code_simp
  moreover have "\<not> test_match (run_of 2 (\<lambda>c. c = NL)) '' a''"
    by (simp add: run_of_def)
  ultimately show ?thesis by simp
qed

theorem roundtrip_simple_text_witness:
  "htmlToPlainText (plainTextToHtml (''a'' @ [NL] @ ''b c'')) = ''a'' @ [NL] @ ''b c''"
proof -
  let ?t = "''a'' @ [NL] @ ''b c''"
  have h1: "set ?t \<inter> set [CHR ''&'', CHR ''<'', CHR ''>'', DQUOTE, SQUOTE] = {}"
    by simp
  have h2: "?t \<noteq> [] \<longrightarrow> \<not> is_space (hd ?t)"
    by (simp add: is_space_def)
  have h3: "\<forall>i<length ?t. is_space (?t ! i) \<longrightarrow>
      Suc i < length ?t \<and> \<not> is_line_terminator (?t ! Suc i)"
    by (auto simp: less_Suc_eq is_space_def is_line_terminator_def)
  from roundtrip_simple_text [OF h1 h2 h3] show ?thesis
    by (rule conjunct1)
qed

section \<open>Properties of the extension and the statistics\<close>

subsection \<open>The extension\<close>

lemma other_ranges_high:
  "list_all (\<lambda>(lo, hi, step, target). 128 \<le> lo \<and> 128 \<le> target) other_lower_ranges"
  by (simp add: other_lower_ranges_def)

lemma other_ranges_no_space:
  "list_all (\<lambda>(lo, hi, step, target).
      list_all (\<lambda>w. \<not> (lo \<le> w \<and> w \<le> hi) \<and> \<not> (target \<le> w \<and> w \<le> target + (hi - lo)))
        (WhiteSpace @ LineTerminator)) other_lower_ranges"
  by (simp add: other_lower_ranges_def WhiteSpace_def LineTerminator_def)

lemma lookup_lower_Some:
  "lookup_lower rs c = Some l \<Longrightarrow>
     \<exists>(lo, hi, step, target) \<in> set rs. lo \<le> c \<and> c \<le> hi \<and> l = target + (c - lo)"
  by (induction rs c rule: lookup_lower.induct) (auto split: if_splits)

lemma lookup_lower_None:
  "(\<And>lo hi step target. (lo, hi, step, target) \<in> set rs \<Longrightarrow> \<not> (lo \<le> c \<and> c \<le> hi)) \<Longrightarrow>
     lookup_lower rs c = None"
  by (induction rs c rule: lookup_lower.induct) auto

lemma lookup_lower_ascii:
  "c < 128 \<Longrightarrow> lookup_lower lower_ranges c = (if 65 \<le> c \<and> c \<le> 90 then Some (c + 32) else None)"
proof -
  assume c: "c < 128"
  have "lookup_lower other_lower_ranges c = None"
  proof (rule lookup_lower_None)
    fix lo hi step target
    assume "(lo, hi, step, target) \<in> set other_lower_ranges"
    with other_ranges_high have "128 \<le> lo" by (auto simp: list_all_iff)
    with c show "\<not> (lo \<le> c \<and> c \<le> hi)" by simp
  qed
  with c show ?thesis by (auto simp: lower_ranges_def)
qed

lemma toLowerCase_unit_ascii:
  "c < 128 \<Longrightarrow> toLowerCase_unit c = [if 65 \<le> c \<and> c \<le> 90 then c + 32 else c]"
  by (simp add: toLowerCase_unit_def lookup_lower_ascii)

lemma toLowerCase_unit_kelvin: "toLowerCase_unit 0x212A = [0x6B]"
  by (simp add: toLowerCase_unit_def lower_ranges_def)

lemma toLowerCase_unit_dotted_I: "toLowerCase_unit 0x130 = [0x69, 0x307]"
  by (simp add: toLowerCase_unit_def)

lemma toLowerCase_unit_high:
  assumes "128 \<le> c" "c \<noteq> 0x212A" "c \<noteq> 0x130"
  shows "\<exists>l. toLowerCase_unit c = [l] \<and> 128 \<le> l
     \<and> (l = c \<or> (\<exists>(lo, hi, step, target) \<in> set other_lower_ranges.
            lo \<le> c \<and> c \<le> hi \<and> l = target + (c - lo)))"
proof (cases "lookup_lower other_lower_ranges c")
  case None
  with assms show ?thesis by (simp add: toLowerCase_unit_def lower_ranges_def)
next
  case (Some l)
  from lookup_lower_Some [OF Some] obtain lo hi step target where
    r: "(lo, hi, step, target) \<in> set other_lower_ranges" "lo \<le> c" "c \<le> hi" "l = target + (c - lo)"
    by auto
  with other_ranges_high have "128 \<le> target" by (auto simp: list_all_iff)
  with r(4) have "128 \<le> l" by simp
  moreover have "toLowerCase_unit c = [l]"
    using assms Some by (simp add: toLowerCase_unit_def lower_ranges_def)
  ultimately show ?thesis using r by blast
qed

lemma toLowerCase_unit_not_Nil: "toLowerCase_unit c \<noteq> []"
  by (simp add: toLowerCase_unit_def split: option.splits)

lemma is_alnum_ascii: "is_alnum c \<Longrightarrow> c < 128"
  by (auto simp: is_alnum_def)

lemma toLowerCase_unit_alnum:
  "list_all is_alnum (toLowerCase_unit c) \<longleftrightarrow> is_alnum c \<or> c = 0x212A"
proof (cases "c < 128")
  case True
  then show ?thesis by (auto simp: toLowerCase_unit_ascii is_alnum_def)
next
  case False
  show ?thesis
  proof (cases "c = 0x212A \<or> c = 0x130")
    case True
    then show ?thesis
      by (auto simp: toLowerCase_unit_kelvin toLowerCase_unit_dotted_I is_alnum_def)
  next
    case f: False
    with False toLowerCase_unit_high [of c] obtain l where "toLowerCase_unit c = [l]" "128 \<le> l"
      by auto
    with False f show ?thesis by (auto simp: is_alnum_def)
  qed
qed

lemma toLowerCase_unit_of_alnum:
  "is_alnum c \<or> c = 0x212A \<Longrightarrow>
     toLowerCase_unit c = [if 65 \<le> c \<and> c \<le> 90 then c + 32 else if c = 0x212A then 0x6B else c]"
  by (auto simp: toLowerCase_unit_kelvin toLowerCase_unit_ascii dest: is_alnum_ascii)

lemma toLowerCase_unit_dot: "0x2E \<in> set (toLowerCase_unit c) \<longleftrightarrow> c = 0x2E"
proof (cases "c < 128")
  case True
  then show ?thesis by (auto simp: toLowerCase_unit_ascii)
next
  case False
  show ?thesis
  proof (cases "c = 0x212A \<or> c = 0x130")
    case True
    then show ?thesis
      by (auto simp: toLowerCase_unit_kelvin toLowerCase_unit_dotted_I)
  next
    case f: False
    with False toLowerCase_unit_high [of c] obtain l where "toLowerCase_unit c = [l]" "128 \<le> l"
      by auto
    with False show ?thesis by auto
  qed
qed

lemma is_white_space_cases:
  "is_white_space c \<Longrightarrow> c \<in> {9, 10, 11, 12, 13, 32} \<or> 128 \<le> c"
  by (auto simp: is_white_space_def WhiteSpace_def LineTerminator_def)

lemma toLowerCase_unit_space:
  "is_white_space c \<Longrightarrow> toLowerCase_unit c = [c]"
proof -
  assume w: "is_white_space c"
  show ?thesis
  proof (cases "c < 128")
    case True
    with w is_white_space_cases [of c] show ?thesis by (auto simp: toLowerCase_unit_ascii)
  next
    case False
    from w have n: "c \<noteq> 0x212A" "c \<noteq> 0x130"
      by (auto simp: is_white_space_def WhiteSpace_def LineTerminator_def)
    have "lookup_lower other_lower_ranges c = None"
    proof (rule lookup_lower_None)
      fix lo hi step target
      assume "(lo, hi, step, target) \<in> set other_lower_ranges"
      with other_ranges_no_space w show "\<not> (lo \<le> c \<and> c \<le> hi)"
        unfolding list_all_iff is_white_space_def by fast
    qed
    with False n show ?thesis by (simp add: toLowerCase_unit_def lower_ranges_def)
  qed
qed

lemma toLowerCase_unit_no_space:
  assumes "\<not> is_white_space c" "u \<in> set (toLowerCase_unit c)"
  shows "\<not> is_white_space u"
proof (cases "c < 128")
  case True
  with assms have "u = c \<or> (u = c + 32 \<and> 65 \<le> c \<and> c \<le> 90)"
    by (auto simp: toLowerCase_unit_ascii split: if_splits)
  with assms(1) is_white_space_cases [of u] show ?thesis by auto
next
  case False
  show ?thesis
  proof (cases "c = 0x212A \<or> c = 0x130")
    case True
    with assms(2) have "u = 0x6B \<or> u = 0x69 \<or> u = 0x307"
      by (auto simp: toLowerCase_unit_kelvin toLowerCase_unit_dotted_I)
    then show ?thesis
      by (auto simp: is_white_space_def WhiteSpace_def LineTerminator_def)
  next
    case f: False
    with False toLowerCase_unit_high [of c] obtain l where
      l: "toLowerCase_unit c = [l]"
        "l = c \<or> (\<exists>(lo, hi, step, target) \<in> set other_lower_ranges.
            lo \<le> c \<and> c \<le> hi \<and> l = target + (c - lo))"
      by auto
    from l(1) assms(2) have u: "u = l" by simp
    from l(2) show ?thesis
    proof
      assume "l = c"
      with u assms(1) show ?thesis by simp
    next
      assume "\<exists>(lo, hi, step, target) \<in> set other_lower_ranges.
            lo \<le> c \<and> c \<le> hi \<and> l = target + (c - lo)"
      then obtain lo hi step target where
        r: "(lo, hi, step, target) \<in> set other_lower_ranges" "lo \<le> c" "c \<le> hi"
          "l = target + (c - lo)"
        by auto
      then have b: "target \<le> l" "l \<le> target + (hi - lo)" by simp_all
      show ?thesis
      proof
        assume "is_white_space u"
        with u have "l \<in> set (WhiteSpace @ LineTerminator)" by (simp add: is_white_space_def)
        with other_ranges_no_space r(1)
        have "\<not> (target \<le> l \<and> l \<le> target + (hi - lo))"
          unfolding list_all_iff by fast
        with b show False by simp
      qed
    qed
  qed
qed


lemma dropWhile_concat_map:
  assumes "\<And>c. P c \<Longrightarrow> f c = [c]"
    and "\<And>c. \<not> P c \<Longrightarrow> f c \<noteq> [] \<and> \<not> P (hd (f c))"
  shows "dropWhile P (concat (map f s)) = concat (map f (dropWhile P s))"
proof (induction s)
  case Nil
  then show ?case by simp
next
  case (Cons c s)
  show ?case
  proof (cases "P c")
    case True
    with assms(1) [of c] Cons.IH show ?thesis by simp
  next
    case False
    with assms(2) [of c] obtain x xs where "f c = x # xs" "\<not> P x"
      by (cases "f c") auto
    with False show ?thesis by simp
  qed
qed

lemma takeWhile_concat_map:
  assumes "\<And>c. Q c \<Longrightarrow> list_all Q (f c)"
    and "\<And>c. \<not> Q c \<Longrightarrow> f c \<noteq> [] \<and> \<not> Q (hd (f c))"
  shows "takeWhile Q (concat (map f s)) = concat (map f (takeWhile Q s))"
proof (induction s)
  case Nil
  then show ?case by simp
next
  case (Cons c s)
  show ?case
  proof (cases "Q c")
    case True
    with assms(1) [of c] have "\<forall>x\<in>set (f c). Q x" by (simp add: list_all_iff)
    with True Cons.IH show ?thesis by (simp add: takeWhile_append2)
  next
    case False
    with assms(2) [of c] obtain x xs where "f c = x # xs" "\<not> Q x"
      by (cases "f c") auto
    with False show ?thesis by simp
  qed
qed

lemma rev_concat_map: "rev (concat (map f s)) = concat (map (\<lambda>c. rev (f c)) (rev s))"
  by (induction s) simp_all

lemma trim16_toLowerCase16: "trim16 (toLowerCase16 s) = toLowerCase16 (trim16 s)"
proof -
  let ?f = toLowerCase_unit
  let ?g = "\<lambda>c. rev (toLowerCase_unit c)"
  have f1: "\<And>c. is_white_space c \<Longrightarrow> ?f c = [c]" by (rule toLowerCase_unit_space)
  have f2: "?f c \<noteq> [] \<and> \<not> is_white_space (hd (?f c))" if "\<not> is_white_space c" for c
    using that toLowerCase_unit_no_space [of c "hd (?f c)"] toLowerCase_unit_not_Nil [of c]
    by simp
  have g1: "\<And>c. is_white_space c \<Longrightarrow> ?g c = [c]" by (simp add: toLowerCase_unit_space)
  have g2: "?g c \<noteq> [] \<and> \<not> is_white_space (hd (?g c))" if "\<not> is_white_space c" for c
    using that toLowerCase_unit_no_space [of c "last (?f c)"] toLowerCase_unit_not_Nil [of c]
    by (simp add: hd_rev)
  have l: "dropWhile is_white_space (concat (map ?f s))
      = concat (map ?f (dropWhile is_white_space s))" for s
    using f1 f2 by (rule dropWhile_concat_map)
  have r: "dropWhile is_white_space (concat (map ?g s))
      = concat (map ?g (dropWhile is_white_space s))" for s
    using g1 g2 by (rule dropWhile_concat_map)
  have "rev (dropWhile is_white_space (rev (concat (map ?f s))))
      = concat (map ?f (rev (dropWhile is_white_space (rev s))))" for s
    by (simp add: rev_concat_map r)
  then show ?thesis by (simp add: trim16_def toLowerCase16_def l)
qed

lemma after_last_dot_toLowerCase16:
  "after_last_dot (toLowerCase16 s) = toLowerCase16 (after_last_dot s)"
proof -
  let ?g = "\<lambda>c. rev (toLowerCase_unit c)"
  let ?Q = "\<lambda>c. c \<noteq> (0x2E :: nat)"
  have g1: "list_all ?Q (?g c)" if "?Q c" for c
    using that toLowerCase_unit_dot [of c] by (auto simp: list_all_iff)
  have g2: "?g c \<noteq> [] \<and> \<not> ?Q (hd (?g c))" if "\<not> ?Q c" for c
    using that by (simp add: toLowerCase_unit_ascii)
  have "takeWhile ?Q (concat (map ?g s)) = concat (map ?g (takeWhile ?Q s))" for s
    using g1 g2 by (rule takeWhile_concat_map)
  then show ?thesis
    by (simp add: after_last_dot_def toLowerCase16_def rev_concat_map)
qed

lemma dot_in_toLowerCase16: "0x2E \<in> set (toLowerCase16 s) \<longleftrightarrow> 0x2E \<in> set s"
  using toLowerCase_unit_dot by (auto simp: toLowerCase16_def)

lemma toLowerCase16_Nil: "toLowerCase16 s = [] \<longleftrightarrow> s = []"
  using toLowerCase_unit_not_Nil by (cases s) (auto simp: toLowerCase16_def)

lemma list_all_alnum_toLowerCase16:
  "list_all is_alnum (toLowerCase16 s) \<longleftrightarrow> list_all (\<lambda>c. is_alnum c \<or> c = 0x212A) s"
  by (induction s) (simp_all add: toLowerCase16_def toLowerCase_unit_alnum)

lemma toLowerCase16_of_alnum:
  "list_all (\<lambda>c. is_alnum c \<or> c = 0x212A) s \<Longrightarrow>
     toLowerCase16 s
       = map (\<lambda>c. if 65 \<le> c \<and> c \<le> 90 then c + 32 else if c = 0x212A then 0x6B else c) s"
  by (induction s) (simp_all add: toLowerCase16_def toLowerCase_unit_of_alnum)

lemma includes16_unit: "includes16 s [d] \<longleftrightarrow> d \<in> set s"
  by (induction s) auto

lemma split16_not_Nil: "split16 sep s \<noteq> []"
  by (induction sep s rule: split16.induct) (auto split: list.splits)

lemma takeWhile_snoc_stop: "\<not> P x \<Longrightarrow> takeWhile P (xs @ [x]) = takeWhile P xs"
  by (induction xs) simp_all

lemma after_last_dot_no_dot: "0x2E \<notin> set s \<Longrightarrow> after_last_dot s = s"
proof -
  assume "0x2E \<notin> set s"
  then have "\<forall>c\<in>set (rev s). c \<noteq> 0x2E" by auto
  then have "takeWhile (\<lambda>c. c \<noteq> 0x2E) (rev s) = rev s"
    by (simp only: takeWhile_eq_all_conv)
  then show ?thesis by (simp only: after_last_dot_def rev_rev_ident)
qed

lemma split16_dot:
  "last (split16 [0x2E] s) = after_last_dot s
   \<and> (tl (split16 [0x2E] s) = [] \<longleftrightarrow> 0x2E \<notin> set s)"
proof (induction s)
  case Nil
  then show ?case by (simp add: after_last_dot_def)
next
  case (Cons c s)
  note ne = split16_not_Nil [of "[0x2E]" s]
  show ?case
  proof (cases "c = 0x2E")
    case True
    then have "split16 [0x2E] (c # s) = [] # split16 [0x2E] s"
      by simp
    moreover have "after_last_dot (c # s) = after_last_dot s"
      by (simp add: after_last_dot_def True takeWhile_snoc_stop)
    ultimately show ?thesis using Cons ne True by simp
  next
    case False
    obtain p ps where pp: "split16 [0x2E] s = p # ps"
      using ne by (cases "split16 [0x2E] s") auto
    from False have sp: "split16 [0x2E] (c # s) = (c # p) # ps"
      by (simp add: pp)
    show ?thesis
    proof (cases "ps = []")
      case True
      with Cons pp have nodot: "0x2E \<notin> set s" and "p = after_last_dot s" by simp_all
      with after_last_dot_no_dot [OF nodot] have "p = s" by simp
      with sp True nodot False show ?thesis
        by (simp add: after_last_dot_no_dot)
    next
      case False
      with Cons pp have dot: "0x2E \<in> set s" and l: "last ps = after_last_dot s" by auto
      from dot have "takeWhile (\<lambda>c. c \<noteq> 0x2E) (rev s @ [c])
          = takeWhile (\<lambda>c. c \<noteq> 0x2E) (rev s)"
        by (intro takeWhile_append1 [where x = "0x2E"]) simp_all
      then have "after_last_dot (c # s) = after_last_dot s"
        by (simp add: after_last_dot_def)
      with sp False l dot show ?thesis by simp
    qed
  qed
qed

lemma test_alnum_iff: "test_alnum s \<longleftrightarrow> s \<noteq> [] \<and> list_all is_alnum s"
proof -
  have "length (takeWhile is_alnum s) = length s \<longleftrightarrow> list_all is_alnum s"
    by (metis length_takeWhile_le takeWhile_eq_all_conv list_all_iff
        takeWhile_eq_take take_all_iff le_refl)
  then show ?thesis
    by (cases s) (auto simp: test_alnum_def Let_def)
qed

lemma units_dot: "units ''.'' = [0x2E]"
  by code_simp

lemma getDocumentExtension_closed:
  "getDocumentExtension doc =
     (let t = (case title doc of None \<Rightarrow> [] | Some x \<Rightarrow> trim16 x);
          seg = after_last_dot t
      in if 0x2E \<in> set t \<and> seg \<noteq> [] \<and> list_all (\<lambda>c. is_alnum c \<or> c = 0x212A) seg
         then Some (toLowerCase16 seg) else None)"
proof -
  have "pop (split16 [0x2E] t) = Some (after_last_dot t)" for t
    using split16_dot [of t] split16_not_Nil [of "[0x2E]" t] by (simp add: pop_def)
  then show ?thesis
    by (simp add: getDocumentExtension_def Let_def units_dot includes16_unit test_alnum_iff
        toLowerCase16_Nil list_all_alnum_toLowerCase16)
qed

lemma getDocumentExtension_lower:
  "getDocumentExtension (doc \<lparr> title := Some a \<rparr>) = extension_of_lower (toLowerCase16 a)"
  by (simp add: getDocumentExtension_closed extension_of_lower_def Let_def
      trim16_toLowerCase16 after_last_dot_toLowerCase16 dot_in_toLowerCase16
      toLowerCase16_Nil list_all_alnum_toLowerCase16)


lemma units_examples:
  "units ''Notes.TXT'' = [78, 111, 116, 101, 115, 46, 84, 88, 84]"
  "units ''notes.txt'' = [110, 111, 116, 101, 115, 46, 116, 120, 116]"
  "units ''my.file.name'' = [109, 121, 46, 102, 105, 108, 101, 46, 110, 97, 109, 101]"
  "units ''noext'' = [110, 111, 101, 120, 116]"
  "units ''a.txt '' = [97, 46, 116, 120, 116, 32]"
  "units ''txt '' = [116, 120, 116, 32]"
  "units ''txt'' = [116, 120, 116]"
  "units ''name'' = [110, 97, 109, 101]"
  "units ''a.'' = [97, 46]"
  "units ''k'' = [107]"
  "units ''a.k'' = [97, 46, 107]"
  by code_simp+

lemma toLowerCase16_ascii:
  "list_all (\<lambda>c. c < 128) s \<Longrightarrow>
     toLowerCase16 s = map (\<lambda>c. if 65 \<le> c \<and> c \<le> 90 then c + 32 else c) s"
  by (induction s) (simp_all add: toLowerCase16_def toLowerCase_unit_ascii)

lemma toLowerCase16_examples:
  "toLowerCase16 (units ''Notes.TXT'') = units ''notes.txt''"
  "toLowerCase16 (units ''notes.txt'') = units ''notes.txt''"
  "toLowerCase16 (units ''my.file.name'') = units ''my.file.name''"
  "toLowerCase16 (units ''noext'') = units ''noext''"
  "toLowerCase16 (units ''a.txt '') = units ''a.txt ''"
  "toLowerCase16 (units ''a.'' @ [0x212A]) = units ''a.k''"
  by (simp_all add: units_examples toLowerCase16_ascii)
     (simp_all add: toLowerCase16_def toLowerCase_unit_ascii toLowerCase_unit_kelvin)


lemma extension_examples:
  "extension_of_lower (units ''notes.txt'') = Some (units ''txt'')"
  "extension_of_lower (units ''my.file.name'') = Some (units ''name'')"
  "extension_of_lower (units ''noext'') = None"
  "extension_of_lower (units ''a.txt '') = Some (units ''txt'')"
  "extension_of_lower (units ''a.k'') = Some (units ''k'')"
  by (simp_all add: units_examples extension_of_lower_def trim16_def after_last_dot_def
      is_white_space_def WhiteSpace_def LineTerminator_def is_alnum_def)

text \<open>
  C7, amended: \<open>getDocumentExtension\<close> looks at the title with the white space at both
  ends removed.  If that contains a dot and the part after its last dot is not empty and
  consists only of ASCII letters, digits and Kelvin signs (the character \<open>0x212A\<close>, whose
  lower case is the letter \<open>k\<close>), the result is that part with every capital letter
  replaced by its small letter and every Kelvin sign by \<open>k\<close>; otherwise there is no
  extension.  Two titles with the same lower case give the same result, and the four
  examples of the specification hold.
\<close>

theorem getDocumentExtension_spec:
  "getDocumentExtension doc =
     (let t = (case title doc of None \<Rightarrow> [] | Some x \<Rightarrow> trim16 x);
          seg = after_last_dot t
      in if 0x2E \<in> set t \<and> seg \<noteq> [] \<and> list_all (\<lambda>c. is_alnum c \<or> c = 0x212A) seg
         then Some (map (\<lambda>c. if 65 \<le> c \<and> c \<le> 90 then c + 32
                              else if c = 0x212A then 0x6B else c) seg)
         else None)
   \<and> (toLowerCase16 a = toLowerCase16 b \<longrightarrow>
        getDocumentExtension (doc \<lparr> title := Some a \<rparr>)
          = getDocumentExtension (doc \<lparr> title := Some b \<rparr>))
   \<and> getDocumentExtension (doc \<lparr> title := Some (units ''Notes.TXT'') \<rparr>) = Some (units ''txt'')
   \<and> getDocumentExtension (doc \<lparr> title := Some (units ''notes.txt'') \<rparr>) = Some (units ''txt'')
   \<and> getDocumentExtension (doc \<lparr> title := Some (units ''my.file.name'') \<rparr>)
       = Some (units ''name'')
   \<and> getDocumentExtension (doc \<lparr> title := Some (units ''noext'') \<rparr>) = None
   \<and> getDocumentExtension (doc \<lparr> title := Some (units ''a.'' @ [0x212A]) \<rparr>)
       = Some (units ''k'')"
proof (intro conjI impI)
  show "getDocumentExtension doc =
     (let t = (case title doc of None \<Rightarrow> [] | Some x \<Rightarrow> trim16 x);
          seg = after_last_dot t
      in if 0x2E \<in> set t \<and> seg \<noteq> [] \<and> list_all (\<lambda>c. is_alnum c \<or> c = 0x212A) seg
         then Some (map (\<lambda>c. if 65 \<le> c \<and> c \<le> 90 then c + 32
                              else if c = 0x212A then 0x6B else c) seg)
         else None)"
    by (simp add: getDocumentExtension_closed Let_def toLowerCase16_of_alnum)
next
  assume "toLowerCase16 a = toLowerCase16 b"
  then show "getDocumentExtension (doc \<lparr> title := Some a \<rparr>)
          = getDocumentExtension (doc \<lparr> title := Some b \<rparr>)"
    by (simp only: getDocumentExtension_lower)
qed (simp_all only: getDocumentExtension_lower toLowerCase16_examples extension_examples)

text \<open>
  C7 on an example: the titles \<open>Notes.TXT\<close> and \<open>notes.txt\<close> have the same lower case,
  and both give the extension \<open>txt\<close>.
\<close>

theorem getDocumentExtension_spec_witness:
  "toLowerCase16 (units ''Notes.TXT'') = toLowerCase16 (units ''notes.txt'')
   \<and> getDocumentExtension (sample_document \<lparr> title := Some (units ''Notes.TXT'') \<rparr>)
       = getDocumentExtension (sample_document \<lparr> title := Some (units ''notes.txt'') \<rparr>)
   \<and> getDocumentExtension (sample_document \<lparr> title := Some (units ''Notes.TXT'') \<rparr>)
       = Some (units ''txt'')"
proof -
  have h: "toLowerCase16 (units ''Notes.TXT'') = toLowerCase16 (units ''notes.txt'')"
    by (simp only: toLowerCase16_examples)
  from getDocumentExtension_spec [of sample_document "units ''Notes.TXT''" "units ''notes.txt''"] h
  show ?thesis by blast
qed

text \<open>
  C7, as the specification states it, fails: in the title \<open>a.txt\<close> followed by a space the
  part after the last dot is \<open>txt\<close> followed by a space, which is not purely
  alphanumeric, and yet the extension is \<open>txt\<close>, since the title is trimmed first.
\<close>

theorem getDocumentExtension_untrimmed_title:
  "getDocumentExtension (sample_document \<lparr> title := Some (units ''a.txt '') \<rparr>)
     = Some (units ''txt'')
   \<and> after_last_dot (units ''a.txt '') = units ''txt ''
   \<and> \<not> list_all is_alnum (units ''txt '')"
proof -
  have "after_last_dot (units ''a.txt '') = units ''txt ''"
    by (simp add: units_examples after_last_dot_def)
  moreover have "\<not> list_all is_alnum (units ''txt '')"
    by (simp add: units_examples is_alnum_def)
  ultimately show ?thesis
    by (simp only: getDocumentExtension_lower toLowerCase16_examples extension_examples simp_thms)
qed

subsection \<open>Words, and the statistics of the editor\<close>

lemma whitespace_run_Nil: "whitespace_run [] = None"
  by (simp add: whitespace_run_def run_of_def)

lemma whitespace_run_Cons:
  "whitespace_run (c # cs)
     = (if is_space c then Some (Suc (length (takeWhile is_space cs))) else None)"
  by (simp add: whitespace_run_def run_of_def)

lemma collapse_Cons:
  "replace_all whitespace_run (\<lambda>_. '' '') (c # cs)
     = (if is_space c
        then CHR '' '' # replace_all whitespace_run (\<lambda>_. '' '') (dropWhile is_space cs)
        else c # replace_all whitespace_run (\<lambda>_. '' '') cs)"
  by (simp add: whitespace_run_Cons dropWhile_eq_drop)

lemma split_ws_Cons:
  "split_matches whitespace_run (c # cs)
     = (if is_space c then [] # split_matches whitespace_run (dropWhile is_space cs)
        else (c # hd (split_matches whitespace_run cs)) # tl (split_matches whitespace_run cs))"
  using split_matches_not_Nil [of whitespace_run cs]
  by (cases "split_matches whitespace_run cs")
    (simp_all add: whitespace_run_Cons dropWhile_eq_drop)

lemma pieces_not_Nil: "pieces s \<noteq> []"
  by (cases s) (auto split: list.splits)

lemma pieces_Cons:
  "pieces (c # cs)
     = (if is_space c then [] # pieces cs else (c # hd (pieces cs)) # tl (pieces cs))"
  using pieces_not_Nil [of cs] by (cases "pieces cs") simp_all

lemma hd_pieces: "hd (pieces s) = takeWhile (\<lambda>x. \<not> is_space x) s"
  by (induction s) (simp_all add: pieces_Cons del: pieces.simps(2))

lemma words_of_Nil: "words_of [] = []"
  by (simp add: words_of_def)

lemma words_of_space: "is_space c \<Longrightarrow> words_of (c # cs) = words_of cs"
  by (simp add: words_of_def)

lemma words_of_dropWhile: "words_of (dropWhile is_space s) = words_of s"
  by (induction s) (simp_all add: words_of_space)

lemma tl_pieces:
  "filter (\<lambda>w. w \<noteq> []) (tl (pieces s)) = words_of (dropWhile (\<lambda>x. \<not> is_space x) s)"
proof (induction s)
  case Nil
  then show ?case by (simp add: words_of_def)
next
  case (Cons c s)
  then show ?case
    by (simp add: pieces_Cons words_of_space del: pieces.simps(2)) (simp add: words_of_def)
qed

lemma words_of_Cons:
  "\<not> is_space c \<Longrightarrow>
   words_of (c # cs)
     = (c # takeWhile (\<lambda>x. \<not> is_space x) cs) # words_of (dropWhile (\<lambda>x. \<not> is_space x) cs)"
  using tl_pieces [of cs] hd_pieces [of cs]
  by (simp add: words_of_def pieces_Cons del: pieces.simps(2))

lemma hd_split_ws:
  "hd (split_matches whitespace_run s) = takeWhile (\<lambda>x. \<not> is_space x) s"
  by (induction s) (simp_all add: split_ws_Cons del: split_matches.simps(2))

lemma tl_split_ws:
  "tl (split_matches whitespace_run s)
     = (if dropWhile (\<lambda>x. \<not> is_space x) s = [] then []
        else split_matches whitespace_run (dropWhile is_space (dropWhile (\<lambda>x. \<not> is_space x) s)))"
  by (induction s) (simp_all add: split_ws_Cons del: split_matches.simps(2))

lemma last_dropWhile: "dropWhile P xs \<noteq> [] \<Longrightarrow> last (dropWhile P xs) = last xs"
  by (induction xs) (auto split: if_splits)

lemma split_ws_words:
  "s \<noteq> [] \<Longrightarrow> \<not> is_space (hd s) \<Longrightarrow> \<not> is_space (last s) \<Longrightarrow>
   split_matches whitespace_run s = words_of s"
proof (induction s rule: length_induct)
  case (1 s)
  from "1.prems" obtain c cs where s: "s = c # cs" and c: "\<not> is_space c"
    by (cases s) auto
  let ?r = "dropWhile (\<lambda>x. \<not> is_space x) s"
  have r: "?r = dropWhile (\<lambda>x. \<not> is_space x) cs" using s c by simp
  have split: "split_matches whitespace_run s
      = takeWhile (\<lambda>x. \<not> is_space x) s
        # (if ?r = [] then [] else split_matches whitespace_run (dropWhile is_space ?r))"
    using hd_split_ws [of s] tl_split_ws [of s] split_matches_not_Nil [of whitespace_run s]
    by (cases "split_matches whitespace_run s") simp_all
  have words: "words_of s = takeWhile (\<lambda>x. \<not> is_space x) s # words_of ?r"
    using words_of_Cons [OF c, of cs] s c by simp
  show ?case
  proof (cases "?r = []")
    case True
    with split words show ?thesis by (simp add: words_of_Nil)
  next
    case False
    let ?u = "dropWhile is_space ?r"
    from False "1.prems"(3) have lr: "\<not> is_space (last ?r)"
      by (simp add: last_dropWhile)
    from False have "last ?r \<in> set ?r" by simp
    with lr have u: "?u \<noteq> []"
      by (auto simp: dropWhile_eq_Nil_conv)
    then have hu: "\<not> is_space (hd ?u)" by (rule hd_dropWhile)
    from u lr have lu: "\<not> is_space (last ?u)" by (simp add: last_dropWhile)
    have "length ?u \<le> length ?r" by (rule length_dropWhile_le)
    also have "length ?r \<le> length cs" unfolding r by (rule length_dropWhile_le)
    finally have "length ?u < length s" using s by simp
    with "1.IH" u hu lu have "split_matches whitespace_run ?u = words_of ?u" by blast
    then have "split_matches whitespace_run ?u = words_of ?r"
      by (simp only: words_of_dropWhile)
    moreover from split False
    have "split_matches whitespace_run s
      = takeWhile (\<lambda>x. \<not> is_space x) s # split_matches whitespace_run ?u"
      by (simp only: if_False)
    ultimately show ?thesis using words by (simp only:)
  qed
qed

lemma pieces_snoc_space: "is_space a \<Longrightarrow> pieces (s @ [a]) = pieces s @ [[]]"
proof (induction s)
  case Nil
  then show ?case by simp
next
  case (Cons c s)
  then show ?case
    using pieces_not_Nil [of s]
    by (cases "pieces s") (simp_all add: pieces_Cons del: pieces.simps(2))
qed

lemma words_of_snoc_space: "is_space a \<Longrightarrow> words_of (s @ [a]) = words_of s"
  by (simp add: words_of_def pieces_snoc_space)

lemma words_of_append_spaces: "list_all is_space t \<Longrightarrow> words_of (s @ t) = words_of s"
proof (induction t rule: rev_induct)
  case Nil
  then show ?case by simp
next
  case (snoc a t)
  then have "words_of ((s @ t) @ [a]) = words_of (s @ t)"
    by (intro words_of_snoc_space) simp
  with snoc show ?case by simp
qed

lemma rtrim_decompose:
  "s = rev (dropWhile is_space (rev s)) @ rev (takeWhile is_space (rev s))"
proof -
  have "rev s = takeWhile is_space (rev s) @ dropWhile is_space (rev s)" by simp
  then have "rev (rev s) = rev (takeWhile is_space (rev s) @ dropWhile is_space (rev s))"
    by (rule arg_cong)
  then show ?thesis by (simp only: rev_rev_ident rev_append)
qed

lemma words_of_rtrim: "words_of (rev (dropWhile is_space (rev s))) = words_of s"
proof -
  have "list_all is_space (rev (takeWhile is_space (rev s)))"
    by (auto simp: list_all_iff dest: set_takeWhileD)
  from words_of_append_spaces [OF this, of "rev (dropWhile is_space (rev s))"]
  show ?thesis using rtrim_decompose [of s] by simp
qed

lemma words_of_trim: "words_of (trim s) = words_of s"
  by (simp add: trim_def words_of_rtrim words_of_dropWhile)

lemma words_of_eq_Nil: "words_of s = [] \<longleftrightarrow> list_all is_space s"
proof (induction s)
  case Nil
  then show ?case by (simp add: words_of_Nil)
next
  case (Cons c s)
  then show ?case
    by (cases "is_space c") (simp_all add: words_of_space words_of_Cons)
qed

lemma trim_ends:
  assumes "trim s \<noteq> []"
  shows "\<not> is_space (hd (trim s)) \<and> \<not> is_space (last (trim s))"
proof -
  let ?l = "dropWhile is_space s"
  from assms have ne: "dropWhile is_space (rev ?l) \<noteq> []" by (simp add: trim_def)
  then have "\<not> is_space (hd (dropWhile is_space (rev ?l)))" by (rule hd_dropWhile)
  with ne have last: "\<not> is_space (last (trim s))"
    by (simp add: trim_def last_rev)
  have l: "?l \<noteq> []"
  proof
    assume "?l = []"
    then have "dropWhile is_space (rev ?l) = []" by (simp only: rev.simps dropWhile.simps)
    with ne show False by contradiction
  qed
  then have hl: "\<not> is_space (hd ?l)" by (rule hd_dropWhile)
  from ne have "last (dropWhile is_space (rev ?l)) = last (rev ?l)" by (rule last_dropWhile)
  with l have "last (dropWhile is_space (rev ?l)) = hd ?l" by (simp add: last_rev)
  with ne hl have "\<not> is_space (hd (trim s))"
    by (simp add: trim_def hd_rev)
  with last show ?thesis by simp
qed

lemma word_count_trim:
  "trim s \<noteq> [] \<Longrightarrow> length (split_matches whitespace_run (trim s)) = length (words_of s)"
  using split_ws_words [of "trim s"] trim_ends [of s] by (simp add: words_of_trim)

lemma rtrim_Cons:
  "rev (dropWhile is_space (rev (a # x)))
     = (if rev (dropWhile is_space (rev x)) = [] \<and> is_space a then []
        else a # rev (dropWhile is_space (rev x)))"
proof (cases "list_all is_space x")
  case True
  then have "dropWhile is_space (rev x @ [a]) = dropWhile is_space [a]"
    by (intro dropWhile_append2) (auto simp: list_all_iff)
  moreover from True have "dropWhile is_space (rev x) = []"
    by (auto simp: list_all_iff)
  ultimately show ?thesis by simp
next
  case False
  then obtain y where y: "y \<in> set (rev x)" "\<not> is_space y"
    by (auto simp: list_all_iff)
  then have "dropWhile is_space (rev x @ [a]) = dropWhile is_space (rev x) @ [a]"
    by (rule dropWhile_append1)
  moreover from y have "dropWhile is_space (rev x) \<noteq> []"
    by (auto simp: dropWhile_eq_Nil_conv)
  ultimately show ?thesis by simp
qed

lemma words_of_tokens:
  "w \<in> set (words_of s) \<Longrightarrow> w \<noteq> [] \<and> (\<forall>c\<in>set w. \<not> is_space c)"
proof -
  have "\<forall>p\<in>set (pieces s). \<forall>c\<in>set p. \<not> is_space c"
  proof (induction s)
    case Nil
    then show ?case by simp
  next
    case (Cons a s)
    then show ?case
      using pieces_not_Nil [of s]
      by (cases "pieces s") (auto simp: pieces_Cons simp del: pieces.simps(2))
  qed
  then show "w \<in> set (words_of s) \<Longrightarrow> w \<noteq> [] \<and> (\<forall>c\<in>set w. \<not> is_space c)"
    by (auto simp: words_of_def)
qed

lemma unwords_Cons:
  "unwords (w # ws) = (if ws = [] then w else w @ CHR '' '' # unwords ws)"
  by (cases ws) simp_all

lemma unwords_eq_Nil: "[] \<notin> set ws \<Longrightarrow> unwords ws = [] \<longleftrightarrow> ws = []"
  by (cases ws) (auto simp: unwords_Cons)

lemma space_is_space: "is_space CHR '' ''"
  by (simp add: is_space_def)

lemma collapse_trailing:
  "rev (dropWhile is_space (rev (replace_all whitespace_run (\<lambda>_. '' '') s)))
     = (if s \<noteq> [] \<and> is_space (hd s)
        then (if words_of s = [] then [] else CHR '' '' # unwords (words_of s))
        else unwords (words_of s))"
proof (induction s rule: length_induct)
  case (1 s)
  define rt where "rt x = rev (dropWhile is_space (rev (replace_all whitespace_run (\<lambda>_. '' '') x)))"
    for x
  have IH: "rt x = (if x \<noteq> [] \<and> is_space (hd x)
        then (if words_of x = [] then [] else CHR '' '' # unwords (words_of x))
        else unwords (words_of x))" if "length x < length s" for x
    using "1.IH" that unfolding rt_def by blast
  have step: "rt (c # cs)
      = (if is_space c
         then (if rt (dropWhile is_space cs) = [] then [] else CHR '' '' # rt (dropWhile is_space cs))
         else c # rt cs)" for c cs
  proof (cases "is_space c")
    case True
    then have "replace_all whitespace_run (\<lambda>_. '' '') (c # cs)
        = CHR '' '' # replace_all whitespace_run (\<lambda>_. '' '') (dropWhile is_space cs)"
      by (simp only: collapse_Cons if_True)
    with True show ?thesis
      unfolding rt_def by (simp only: rtrim_Cons space_is_space simp_thms if_True)
  next
    case False
    then have "replace_all whitespace_run (\<lambda>_. '' '') (c # cs)
        = c # replace_all whitespace_run (\<lambda>_. '' '') cs"
      by (simp only: collapse_Cons if_False)
    with False show ?thesis
      unfolding rt_def by (simp only: rtrim_Cons simp_thms if_False)
  qed
  have "rt s = (if s \<noteq> [] \<and> is_space (hd s)
        then (if words_of s = [] then [] else CHR '' '' # unwords (words_of s))
        else unwords (words_of s))"
  proof (cases s)
    case Nil
    then show ?thesis by (simp add: rt_def words_of_Nil)
  next
    case (Cons c cs)
    show ?thesis
    proof (cases "is_space c")
      case True
      let ?u = "dropWhile is_space cs"
      have "length ?u \<le> length cs" by (rule length_dropWhile_le)
      then have "length ?u < length s" using Cons by simp
      note IH [OF this]
      moreover have "\<not> (?u \<noteq> [] \<and> is_space (hd ?u))"
        using hd_dropWhile [of is_space cs] by blast
      ultimately have u: "rt ?u = unwords (words_of ?u)" by (simp only: if_False)
      have w: "words_of (c # cs) = words_of ?u"
        using True by (simp add: words_of_space words_of_dropWhile)
      have "[] \<notin> set (words_of ?u)" using words_of_tokens [of "[]" ?u] by blast
      then have e: "unwords (words_of ?u) = [] \<longleftrightarrow> words_of ?u = []"
        by (rule unwords_eq_Nil)
      from step [of c cs] True
      have "rt (c # cs) = (if rt ?u = [] then [] else CHR '' '' # rt ?u)" by simp
      with u e have "rt (c # cs)
        = (if words_of ?u = [] then [] else CHR '' '' # unwords (words_of ?u))" by simp
      with w True Cons show ?thesis by simp
    next
      case False
      have "length cs < length s" using Cons by simp
      note IHcs = IH [OF this]
      from step [of c cs] False have rt: "rt (c # cs) = c # rt cs" by simp
      have w: "words_of (c # cs)
        = (c # takeWhile (\<lambda>x. \<not> is_space x) cs) # words_of (dropWhile (\<lambda>x. \<not> is_space x) cs)"
        using words_of_Cons [OF False, of cs] by simp
      have "rt (c # cs) = unwords (words_of (c # cs))"
      proof (cases cs)
        case Nil
        with rt w show ?thesis by (simp add: words_of_Nil rt_def)
      next
        case (Cons d ds)
        show ?thesis
        proof (cases "is_space d")
          case True
          with Cons IHcs have "rt cs
            = (if words_of cs = [] then [] else CHR '' '' # unwords (words_of cs))" by simp
          moreover from True Cons w have "words_of (c # cs) = [c] # words_of cs" by simp
          ultimately show ?thesis using rt
            by (simp add: unwords_Cons)
        next
          case nsp: False
          with Cons IHcs have r: "rt cs = unwords (words_of cs)" by simp
          have wc: "words_of cs
            = (d # takeWhile (\<lambda>x. \<not> is_space x) ds) # words_of (dropWhile (\<lambda>x. \<not> is_space x) ds)"
            using words_of_Cons [OF nsp, of ds] Cons by simp
          from w Cons nsp have "words_of (c # cs)
            = (c # d # takeWhile (\<lambda>x. \<not> is_space x) ds)
              # words_of (dropWhile (\<lambda>x. \<not> is_space x) ds)" by simp
          with wc r rt show ?thesis
            by (simp add: unwords_Cons)
        qed
      qed
      with False Cons show ?thesis by simp
    qed
  qed
  then show ?case unfolding rt_def .
qed

lemma collapse_leading:
  "dropWhile is_space (replace_all whitespace_run (\<lambda>_. '' '') s)
     = replace_all whitespace_run (\<lambda>_. '' '') (dropWhile is_space s)"
proof (cases s)
  case Nil
  then show ?thesis by simp
next
  case (Cons c cs)
  let ?C = "replace_all whitespace_run (\<lambda>_. '' '')"
  show ?thesis
  proof (cases "is_space c")
    case False
    with Cons show ?thesis by (simp add: collapse_Cons del: replace_all.simps(2))
  next
    case True
    let ?u = "dropWhile is_space cs"
    have "dropWhile is_space (?C ?u) = ?C ?u"
    proof (cases ?u)
      case Nil
      then show ?thesis by (simp only: replace_all.simps(1) dropWhile.simps(1))
    next
      case (Cons d ds)
      with hd_dropWhile [of is_space cs] have "\<not> is_space d" by simp
      with Cons show ?thesis by (simp add: collapse_Cons del: replace_all.simps(2))
    qed
    with True Cons show ?thesis
      by (simp add: collapse_Cons is_space_def del: replace_all.simps(2))
  qed
qed

lemma trim_collapse:
  "trim (replace_all whitespace_run (\<lambda>_. '' '') s) = unwords (words_of s)"
proof -
  let ?u = "dropWhile is_space s"
  have "\<not> (?u \<noteq> [] \<and> is_space (hd ?u))"
    using hd_dropWhile [of is_space s] by blast
  with collapse_trailing [of ?u]
  have "rev (dropWhile is_space (rev (replace_all whitespace_run (\<lambda>_. '' '') ?u)))
      = unwords (words_of ?u)" by (simp only: if_False)
  then show ?thesis
    by (simp only: trim_def collapse_leading words_of_dropWhile)
qed

lemma words_of_token_append:
  assumes "w \<noteq> []" "\<forall>c\<in>set w. \<not> is_space c"
  shows "words_of (w @ r)
     = (w @ takeWhile (\<lambda>x. \<not> is_space x) r) # words_of (dropWhile (\<lambda>x. \<not> is_space x) r)"
proof -
  from assms obtain c w' where w: "w = c # w'" and c: "\<not> is_space c"
    and w': "\<forall>x\<in>set w'. \<not> is_space x"
    by (cases w) auto
  from w' have "takeWhile (\<lambda>x. \<not> is_space x) (w' @ r) = w' @ takeWhile (\<lambda>x. \<not> is_space x) r"
    by (intro takeWhile_append2) simp
  moreover from w' have "dropWhile (\<lambda>x. \<not> is_space x) (w' @ r) = dropWhile (\<lambda>x. \<not> is_space x) r"
    by (intro dropWhile_append2) simp
  ultimately show ?thesis
    using words_of_Cons [OF c, of "w' @ r"] w by simp
qed

lemma words_of_unwords:
  "(\<And>w. w \<in> set ws \<Longrightarrow> w \<noteq> [] \<and> (\<forall>c\<in>set w. \<not> is_space c)) \<Longrightarrow>
   words_of (unwords ws) = ws"
proof (induction ws rule: unwords.induct)
  case 1
  then show ?case by (simp add: words_of_Nil)
next
  case (2 w)
  from "2.prems" [of w] have "w \<noteq> []" "\<forall>c\<in>set w. \<not> is_space c" by simp_all
  from words_of_token_append [OF this, of "[]"] show ?case
    by (simp add: words_of_Nil)
next
  case (3 w v ws)
  from "3.prems" [of w] have w: "w \<noteq> []" "\<forall>c\<in>set w. \<not> is_space c" by simp_all
  have IH: "words_of (unwords (v # ws)) = v # ws"
  proof (rule "3.IH")
    fix x assume "x \<in> set (v # ws)"
    then show "x \<noteq> [] \<and> (\<forall>c\<in>set x. \<not> is_space c)"
      using "3.prems" [of x] by simp
  qed
  from words_of_token_append [OF w, of "CHR '' '' # unwords (v # ws)"] IH
  show ?case by (simp add: space_is_space words_of_space)
qed

lemma word_count_collapsed:
  fixes y :: string
  defines "text \<equiv> trim (replace_all whitespace_run (\<lambda>_. '' '') y)"
  shows "text = unwords (words_of y)
     \<and> (if text \<noteq> [] then length (split_matches whitespace_run text) else 0)
         = length (words_of y)"
proof -
  have t: "text = unwords (words_of y)"
    unfolding text_def by (rule trim_collapse)
  have tok: "\<And>w. w \<in> set (words_of y) \<Longrightarrow> w \<noteq> [] \<and> (\<forall>c\<in>set w. \<not> is_space c)"
    by (rule words_of_tokens)
  have "(if text \<noteq> [] then length (split_matches whitespace_run text) else 0)
      = length (words_of y)"
  proof (cases "text = []")
    case True
    with t have "unwords (words_of y) = []" by simp
    moreover have "[] \<notin> set (words_of y)" using tok by blast
    ultimately have "words_of y = []" using unwords_eq_Nil [of "words_of y"] by blast
    with True show ?thesis by simp
  next
    case False
    then have "trim (replace_all whitespace_run (\<lambda>_. '' '') y) \<noteq> []"
      unfolding text_def .
    from trim_ends [OF this] False
    have "split_matches whitespace_run text = words_of text"
      unfolding text_def by (intro split_ws_words) simp_all
    also have "\<dots> = words_of y"
      unfolding t using tok by (rule words_of_unwords)
    finally show ?thesis using False by simp
  qed
  with t show ?thesis by simp
qed

lemma calcReadingTime_div: "calcReadingTime w = (w + 237) div 238"
proof -
  have "\<lceil>real_of_int (int w) / real_of_int 238\<rceil> = - (- int w div 238)"
    by (rule ceiling_divide_eq_div)
  then have c: "\<lceil>real w / 238\<rceil> = - (- int w div 238)" by simp
  have "- (- int w div 238) = int ((w + 237) div 238)"
    by (simp add: zdiv_int)
  with c show ?thesis
    unfolding calcReadingTime_def by (simp only: nat_int)
qed

lemma updateEditorStats_counts:
  "updateEditorStats c state =
     state \<lparr> wordCount := length (words_of (replace_all any_tag (\<lambda>_. '' '') c)),
             charCount := length (unwords (words_of (replace_all any_tag (\<lambda>_. '' '') c))),
             readingTime :=
               calcReadingTime (length (words_of (replace_all any_tag (\<lambda>_. '' '') c))),
             contentHealthScore := calcContentHealth c \<rparr>"
proof -
  let ?y = "replace_all any_tag (\<lambda>_. '' '') c"
  note wc = word_count_collapsed [of ?y]
  from wc have t: "trim (replace_all whitespace_run (\<lambda>_. '' '') ?y) = unwords (words_of ?y)"
    by (rule conjunct1)
  from wc have "(if trim (replace_all whitespace_run (\<lambda>_. '' '') ?y) \<noteq> []
      then length (split_matches whitespace_run (trim (replace_all whitespace_run (\<lambda>_. '' '') ?y)))
      else 0) = length (words_of ?y)"
    by (rule conjunct2)
  then have n: "(if unwords (words_of ?y) \<noteq> []
      then length (split_matches whitespace_run (unwords (words_of ?y)))
      else 0) = length (words_of ?y)"
    unfolding t .
  show ?thesis
    unfolding updateEditorStats_def Let_def t n ..
qed

lemma wordCount_stats:
  "wordCount (updateEditorStats c state) = length (words_of (replace_all any_tag (\<lambda>_. '' '') c))"
  by (simp add: updateEditorStats_counts)

lemma charCount_stats:
  "charCount (updateEditorStats c state)
     = length (unwords (words_of (replace_all any_tag (\<lambda>_. '' '') c)))"
  by (simp add: updateEditorStats_counts)

lemma hello_world_words:
  "words_of (replace_all any_tag (\<lambda>_. '' '') ''Hello world'') = [''Hello'', ''world'']"
  by code_simp

text \<open>
  C6, amended: \<open>updateEditorStats\<close> replaces every tag of the content by a space
  (it does not delete the tag) and takes the words of the result: the pieces between
  whitespace that are not empty.  \<open>wordCount\<close> is their number, \<open>charCount\<close> the
  length of the words joined by single spaces, and \<open>readingTime\<close> the word count
  divided by 238 and rounded up.  The content \<open>Hello world\<close> has 2 words and 11
  characters.
\<close>

theorem updateEditorStats_spec:
  "updateEditorStats c state =
     (let ws = words_of (replace_all any_tag (\<lambda>_. '' '') c)
      in state \<lparr> wordCount := length ws,
                   charCount := length (unwords ws),
                   readingTime := nat \<lceil>real (length ws) / 238\<rceil>,
                   contentHealthScore := calcContentHealth c \<rparr>)
   \<and> (\<forall>w\<in>set (words_of (replace_all any_tag (\<lambda>_. '' '') c)).
         w \<noteq> [] \<and> (\<forall>x\<in>set w. \<not> is_space x))
   \<and> wordCount (updateEditorStats ''Hello world'' state) = 2
   \<and> charCount (updateEditorStats ''Hello world'' state) = 11"
proof -
  have A: "updateEditorStats c state =
     (let ws = words_of (replace_all any_tag (\<lambda>_. '' '') c)
      in state \<lparr> wordCount := length ws,
                   charCount := length (unwords ws),
                   readingTime := nat \<lceil>real (length ws) / 238\<rceil>,
                   contentHealthScore := calcContentHealth c \<rparr>)"
    unfolding Let_def calcReadingTime_def [symmetric] by (rule updateEditorStats_counts)
  have B: "\<forall>w\<in>set (words_of (replace_all any_tag (\<lambda>_. '' '') c)).
         w \<noteq> [] \<and> (\<forall>x\<in>set w. \<not> is_space x)"
    using words_of_tokens by blast
  have C: "wordCount (updateEditorStats ''Hello world'' state) = 2"
    by (simp only: wordCount_stats hello_world_words) simp
  have D: "charCount (updateEditorStats ''Hello world'' state) = 11"
    by (simp only: charCount_stats hello_world_words) simp
  show ?thesis
    by (intro conjI) (rule A, rule B, rule C, rule D)
qed

theorem updateEditorStats_spec_witness:
  "words_of (replace_all any_tag (\<lambda>_. '' '') ''<p>Hello world</p>'') = [''Hello'', ''world'']
   \<and> wordCount (updateEditorStats ''<p>Hello world</p>'' state0) = 2
   \<and> charCount (updateEditorStats ''<p>Hello world</p>'' state0) = 11"
proof -
  have ws: "words_of (replace_all any_tag (\<lambda>_. '' '') ''<p>Hello world</p>'')
      = [''Hello'', ''world'']"
    by code_simp
  from updateEditorStats_spec [of "''<p>Hello world</p>''" state0]
  have "updateEditorStats ''<p>Hello world</p>'' state0 =
     state0 \<lparr> wordCount := length [''Hello'', ''world''],
              charCount := length (unwords [''Hello'', ''world'']),
              readingTime := nat \<lceil>real (length [''Hello'', ''world'']) / 238\<rceil>,
              contentHealthScore := calcContentHealth ''<p>Hello world</p>'' \<rparr>"
    unfolding Let_def ws by (rule conjunct1)
  then have "wordCount (updateEditorStats ''<p>Hello world</p>'' state0) = 2"
    and "charCount (updateEditorStats ''<p>Hello world</p>'' state0) = 11"
    by simp_all
  with ws show ?thesis by blast
qed

text \<open>
  C6, as the specification states it, fails: with the tags stripped, the content
  \<open>a<b>b</b>\<close> is the one word \<open>ab\<close>; the statistics count 2 words and 3
  characters, since each tag leaves a space.
\<close>

theorem updateEditorStats_tag_inside_word:
  "wordCount (updateEditorStats ''a<b>b</b>'' state0) = 2
   \<and> charCount (updateEditorStats ''a<b>b</b>'' state0) = 3
   \<and> words_of (replace_all any_tag (\<lambda>_. []) ''a<b>b</b>'') = [''ab'']"
proof -
  have ws: "words_of (replace_all any_tag (\<lambda>_. '' '') ''a<b>b</b>'') = [''a'', ''b'']"
    by code_simp
  have del: "words_of (replace_all any_tag (\<lambda>_. []) ''a<b>b</b>'') = [''ab'']"
    by code_simp
  have "wordCount (updateEditorStats ''a<b>b</b>'' state0) = 2"
    by (simp only: wordCount_stats ws) simp
  moreover have "charCount (updateEditorStats ''a<b>b</b>'' state0) = 3"
    by (simp only: charCount_stats ws) simp
  ultimately show ?thesis using del by blast
qed

lemma count_runs_skip: "\<not> P c \<Longrightarrow> count_runs P (c # cs) = count_runs P cs"
  by (cases cs) simp_all

lemma count_runs_run: "P c \<Longrightarrow> count_runs P (c # cs) = Suc (count_runs P (dropWhile P cs))"
proof (induction cs arbitrary: c)
  case Nil
  then show ?case by simp
next
  case (Cons d r)
  then show ?case by (cases "P d") simp_all
qed

lemma run_of_1_Cons:
  "run_of (Suc 0) P (c # cs) = (if P c then Some (Suc (length (takeWhile P cs))) else None)"
  by (simp add: run_of_def)

lemma count_matches_runs: "count_matches (run_of (Suc 0) P) s = count_runs P s"
proof (induction s rule: length_induct)
  case (1 s)
  show ?case
  proof (cases s)
    case Nil
    then show ?thesis by simp
  next
    case (Cons c cs)
    show ?thesis
    proof (cases "P c")
      case True
      have "length (dropWhile P cs) \<le> length cs" by (rule length_dropWhile_le)
      with Cons have "length (dropWhile P cs) < length s" by simp
      with "1.IH" have "count_matches (run_of (Suc 0) P) (dropWhile P cs)
          = count_runs P (dropWhile P cs)" by blast
      with True Cons show ?thesis
        by (simp add: run_of_1_Cons count_runs_run dropWhile_eq_drop)
    next
      case False
      with Cons "1.IH" have "count_matches (run_of (Suc 0) P) cs = count_runs P cs" by simp
      with False Cons show ?thesis
        by (simp add: run_of_1_Cons count_runs_skip)
    qed
  qed
qed


lemma test_match_alt_lit:
  "test_match (alt (lit p) (lit q)) s \<longleftrightarrow> sublist p s \<or> sublist q s"
  by (induction s) (auto simp: alt_def seq_def lit_def empty_match_def sublist_Cons_right)

lemma heading_matcher:
  "seq (lit ''<h'') (one_of ''123'') u \<noteq> None
     \<longleftrightarrow> prefix ''<h1'' u \<or> prefix ''<h2'' u \<or> prefix ''<h3'' u"
  by (auto simp: seq_def lit_def one_of_def prefix_def split: list.splits)

lemma test_match_heading:
  "test_match (seq (lit ''<h'') (one_of ''123'')) s
     \<longleftrightarrow> sublist ''<h1'' s \<or> sublist ''<h2'' s \<or> sublist ''<h3'' s"
proof (induction s)
  case Nil
  then show ?case by (simp add: seq_def lit_def)
next
  case (Cons c s)
  have "test_match (seq (lit ''<h'') (one_of ''123'')) (c # s)
      \<longleftrightarrow> seq (lit ''<h'') (one_of ''123'') (c # s) \<noteq> None
          \<or> test_match (seq (lit ''<h'') (one_of ''123'')) s" by simp
  with Cons heading_matcher [of "c # s"] show ?case
    by (simp only: sublist_Cons_right) blast
qed

lemma if_add_nat: "(if b then x + k else x) = x + (if b then k else (0::nat))"
  by simp

lemma average_below:
  "(real w / real (if n = 0 then 1 else n) < 25) = (w < 25 * max 1 n)"
proof -
  have pos: "0 < real (max 1 n)" by simp
  have "(if n = 0 then 1 else n) = max 1 n" by simp
  then have "(real w / real (if n = 0 then 1 else n) < 25) = (real w / real (max 1 n) < 25)"
    by (simp only:)
  also have "\<dots> = (real w < 25 * real (max 1 n))"
    using pos by (simp only: pos_divide_less_eq)
  also have "\<dots> = (real w < real (25 * max 1 n))" by simp
  also have "\<dots> = (w < 25 * max 1 n)" by (simp only: of_nat_less_iff)
  finally show ?thesis .
qed

lemma calcContentHealth_formula:
  "calcContentHealth text = contentHealth_formula (length (words_of text)) text"
proof (cases "trim text = []")
  case True
  then show ?thesis
    by (simp add: calcContentHealth_def contentHealth_formula_def trim_eq_Nil)
next
  case False
  then have ns: "\<not> list_all is_space text" by (simp add: trim_eq_Nil)
  note w = word_count_trim [OF False]
  have runs: "count_matches (run_of 1 (\<lambda>c. c \<in> set ''.!?'')) text
      = count_runs (\<lambda>c. c \<in> set ''.!?'') text"
    unfolding One_nat_def by (rule count_matches_runs)
  have "calcContentHealth text
      = min (40 + (if 100 \<le> length (words_of text) then 20 else 0)
           + (if 300 \<le> length (words_of text) then 10 else 0)
           + (if length (words_of text) < 25 * max 1 (count_runs (\<lambda>c. c \<in> set ''.!?'') text)
              then 10 else 0)
           + (if sublist ''<h1'' text \<or> sublist ''<h2'' text \<or> sublist ''<h3'' text
              then 10 else 0)
           + (if sublist ''<ul'' text \<or> sublist ''<ol'' text then 5 else 0)
           + (if sublist ''<code'' text \<or> sublist ''<pre'' text then 5 else 0)) 100"
    unfolding calcContentHealth_def
    using False
    by (simp only: if_add_nat)
      (simp only: Let_def if_False w runs average_below test_match_heading test_match_alt_lit)
  with ns show ?thesis
    unfolding contentHealth_formula_def by (simp only: if_False min.commute)
qed

lemma tagged_text_values:
  "length (words_of tagged_text) = 25"
  "length (words_of (replace_all any_tag (\<lambda>_. '' '') tagged_text)) = 1"
  "contentHealth_formula 25 tagged_text = 40"
  "contentHealth_formula 1 tagged_text = 50"
  by code_simp+

lemma words_of_token_space:
  "w \<noteq> [] \<Longrightarrow> \<forall>c\<in>set w. \<not> is_space c \<Longrightarrow>
   words_of (w @ CHR '' '' # r) = w # words_of r"
  using words_of_token_append [of w "CHR '' '' # r"]
  by (simp add: space_is_space words_of_space)

lemma words_of_replicate:
  "w \<noteq> [] \<Longrightarrow> \<forall>c\<in>set w. \<not> is_space c \<Longrightarrow>
   words_of (concat (replicate n (w @ '' '')) @ r) = replicate n w @ words_of r"
  by (induction n) (simp_all add: words_of_token_space)

lemma count_runs_sentence:
  "count_runs (\<lambda>c. c \<in> set ''.!?'') (''a. '' @ r) = Suc (count_runs (\<lambda>c. c \<in> set ''.!?'') r)"
  by (simp add: count_runs_skip)

lemma count_runs_replicate:
  "count_runs (\<lambda>c. c \<in> set ''.!?'') (concat (replicate n ''a. '') @ r)
     = n + count_runs (\<lambda>c. c \<in> set ''.!?'') r"
proof (induction n)
  case 0
  then show ?case by simp
next
  case (Suc n)
  have "count_runs (\<lambda>c. c \<in> set ''.!?'') (''a. '' @ (concat (replicate n ''a. '') @ r))
      = Suc (count_runs (\<lambda>c. c \<in> set ''.!?'') (concat (replicate n ''a. '') @ r))"
    by (rule count_runs_sentence)
  with Suc show ?case by simp
qed

lemma long_text_values:
  "length (words_of long_text) = 352"
  "count_runs (\<lambda>c. c \<in> set ''.!?'') long_text = 350"
  "sublist ''<h1'' long_text"
proof -
  have tok: "\<forall>c\<in>set t. \<not> is_space c" if "t \<in> {''<p>'', ''a.'', ''<h1>T</h1></p>''}" for t
    using that by (auto simp: is_space_def)
  have "words_of long_text = ''<p>'' # words_of (concat (replicate 350 (''a.'' @ '' '')) @ ''<h1>T</h1></p>'')"
    unfolding long_text_def using words_of_token_space [of "''<p>''"] tok [of "''<p>''"] by simp
  also have "\<dots> = ''<p>'' # replicate 350 ''a.'' @ words_of ''<h1>T</h1></p>''"
    using words_of_replicate [of "''a.''" 350 "''<h1>T</h1></p>''"] tok [of "''a.''"] by simp
  also have "words_of ''<h1>T</h1></p>'' = [''<h1>T</h1></p>'']"
    using words_of_token_append [of "''<h1>T</h1></p>''" "[]"] tok [of "''<h1>T</h1></p>''"]
    by (simp add: words_of_Nil)
  finally show "length (words_of long_text) = 352" by simp
  have "count_runs (\<lambda>c. c \<in> set ''.!?'') long_text
      = count_runs (\<lambda>c. c \<in> set ''.!?'') (concat (replicate 350 ''a. '') @ ''<h1>T</h1></p>'')"
    unfolding long_text_def by (simp add: count_runs_skip)
  also have "\<dots> = 350 + count_runs (\<lambda>c. c \<in> set ''.!?'') ''<h1>T</h1></p>''"
    by (rule count_runs_replicate)
  also have "count_runs (\<lambda>c. c \<in> set ''.!?'') ''<h1>T</h1></p>'' = 0"
    by simp
  finally show "count_runs (\<lambda>c. c \<in> set ''.!?'') long_text = 350" by simp
  have "long_text = (''<p> '' @ concat (replicate 350 ''a. '')) @ ''<h1'' @ ''>T</h1></p>''"
    unfolding long_text_def by simp
  then show "sublist ''<h1'' long_text"
    unfolding sublist_def by blast
qed

text \<open>
  C5, amended: the score is that of the specification, with the words counted on the
  content as it is, markup included (a tag, or a part of a tag between spaces, counts as
  a word): 0 for a content that is all whitespace, and otherwise 40, plus 20 from 100
  words, plus 10 from 300 words, plus 10 if there are fewer than 25 words per sentence
  (runs of \<open>.\<close>, \<open>!\<close>, \<open>?\<close>, at least one), plus 10 if \<open><h1\<close>, \<open><h2\<close> or \<open><h3\<close>
  occurs, plus 5 if \<open><ul\<close> or \<open><ol\<close> occurs, plus 5 if \<open><code\<close> or \<open><pre\<close> occurs,
  at most 100.  The empty content scores 0, and a content of at least 300 words with
  short sentences and a heading scores at least 90.
\<close>

theorem calcContentHealth_score:
  "calcContentHealth text = contentHealth_formula (length (words_of text)) text
   \<and> calcContentHealth [] = 0
   \<and> calcContentHealth text \<le> 100
   \<and> (300 \<le> length (words_of text)
        \<and> length (words_of text) < 25 * max 1 (count_runs (\<lambda>c. c \<in> set ''.!?'') text)
        \<and> (sublist ''<h1'' text \<or> sublist ''<h2'' text \<or> sublist ''<h3'' text)
      \<longrightarrow> 90 \<le> calcContentHealth text)"
proof -
  have A: "calcContentHealth text = contentHealth_formula (length (words_of text)) text"
    by (rule calcContentHealth_formula)
  have B: "calcContentHealth [] = 0"
    by (simp add: calcContentHealth_def trim_def)
  have C: "calcContentHealth text \<le> 100"
    unfolding A contentHealth_formula_def by simp
  have D: "90 \<le> calcContentHealth text"
    if "300 \<le> length (words_of text)"
      "length (words_of text) < 25 * max 1 (count_runs (\<lambda>c. c \<in> set ''.!?'') text)"
      "sublist ''<h1'' text \<or> sublist ''<h2'' text \<or> sublist ''<h3'' text"
  proof -
    from that(1) have "words_of text \<noteq> []" by auto
    then have ns: "\<not> list_all is_space text" by (simp add: words_of_eq_Nil)
    from that(1) have w100: "100 \<le> length (words_of text)" by simp
    have "contentHealth_formula (length (words_of text)) text
        = min 100 (40 + 20 + 10 + 10 + 10
            + (if sublist ''<ul'' text \<or> sublist ''<ol'' text then 5 else 0)
            + (if sublist ''<code'' text \<or> sublist ''<pre'' text then 5 else 0))"
      unfolding contentHealth_formula_def using ns that w100
      by (simp only: if_True if_False)
    then show ?thesis unfolding A by simp
  qed
  from A B C D show ?thesis by blast
qed

theorem calcContentHealth_score_witness:
  "300 \<le> length (words_of long_text)
   \<and> length (words_of long_text) < 25 * max 1 (count_runs (\<lambda>c. c \<in> set ''.!?'') long_text)
   \<and> sublist ''<h1'' long_text
   \<and> 90 \<le> calcContentHealth long_text"
proof -
  have h1: "300 \<le> length (words_of long_text)"
    by (simp add: long_text_values)
  have h2: "length (words_of long_text)
      < 25 * max 1 (count_runs (\<lambda>c. c \<in> set ''.!?'') long_text)"
    by (simp only: long_text_values)
  have h3: "sublist ''<h1'' long_text"
    by (rule long_text_values)
  from calcContentHealth_score [of long_text] h1 h2 h3 show ?thesis by blast
qed

text \<open>
  C5, as the specification states it, fails: the text of one word followed by 24 tags
  has 25 words for \<open>calcContentHealth\<close>, hence 25 words per sentence and no bonus
  (score 40); with the words counted on the text without its tags it has one word and
  the score would be 50.
\<close>

theorem calcContentHealth_counts_markup:
  "calcContentHealth tagged_text = 40 \<and> stated_contentHealth tagged_text = 50"
  by (simp only: calcContentHealth_formula stated_contentHealth_def tagged_text_values)

section \<open>Properties of the reply of the assistant\<close>











































end
